theory Spec2Isabelle
  imports Main "HOL-Library.Word"
begin

section \<open>Basic data\<close>

text \<open>
  A \<open>uuid.UUID\<close> is a 16-byte array, that is a 128-bit value. A \<open>time.Time\<close> is
  an instant counted in nanoseconds since the Unix epoch; \<open>Unix()\<close> is the whole number of
  seconds (rounded down), and \<open>time.Minute\<close> is 60 * 10^9 nanoseconds.

  The textual codec of identifiers (\<open>UUID.String\<close> and \<open>uuid.Parse\<close>) belongs to a
  library outside the repository, so every function that formats or parses an identifier
  takes the formatter \<open>idstr\<close> or the parser \<open>parse\<close> as an argument.
\<close>

type_synonym uuid = "128 word"
type_synonym time = int

definition Unix :: "time \<Rightarrow> int" where
  "Unix t = t div 1000000000"

definition Minute :: int where
  "Minute = 60 * 1000000000"

datatype error = RedisError | DBError

section \<open>The Redis sorted set behind the queue\<close>

text \<open>
  The key \<open>posts:scheduled\<close> holds a sorted set: distinct member strings, each with a
  score, kept in ascending order of score and, for equal scores, of the member bytes.
  The four commands the queue issues are \<open>ZADD\<close>, \<open>ZREM\<close>,
  \<open>ZRANGEBYSCORE -inf max [LIMIT 0 count]\<close> and \<open>ZCARD\<close>.
\<close>

type_synonym zentry = "string \<times> int"

fun bytes_less :: "string \<Rightarrow> string \<Rightarrow> bool" where
  "bytes_less [] [] = False"
| "bytes_less [] (y # ys) = True"
| "bytes_less (x # xs) [] = False"
| "bytes_less (x # xs) (y # ys) =
     ((of_char x :: nat) < of_char y \<or> (x = y \<and> bytes_less xs ys))"

definition entry_before :: "zentry \<Rightarrow> zentry \<Rightarrow> bool" where
  "entry_before a b = (snd a < snd b \<or> (snd a = snd b \<and> bytes_less (fst a) (fst b)))"

fun zinsert :: "zentry \<Rightarrow> zentry list \<Rightarrow> zentry list" where
  "zinsert e [] = [e]"
| "zinsert e (x # xs) = (if entry_before e x then e # x # xs else x # zinsert e xs)"

definition zadd :: "zentry list \<Rightarrow> string \<Rightarrow> int \<Rightarrow> zentry list" where
  "zadd z m s = zinsert (m, s) (filter (\<lambda>e. fst e \<noteq> m) z)"

definition zrem :: "zentry list \<Rightarrow> string \<Rightarrow> zentry list" where
  "zrem z m = filter (\<lambda>e. fst e \<noteq> m) z"

definition zrem_count :: "zentry list \<Rightarrow> string \<Rightarrow> int" where
  "zrem_count z m = int (length (filter (\<lambda>e. fst e = m) z))"

text \<open>
  The client sends \<open>LIMIT 0 count\<close> only when \<open>count\<close> is not zero, and the server
  reads a negative count as "no limit".
\<close>

definition zrangebyscore :: "zentry list \<Rightarrow> int \<Rightarrow> int \<Rightarrow> zentry list" where
  "zrangebyscore z mx cnt =
     (let due = filter (\<lambda>e. snd e \<le> mx) z
      in if 0 < cnt then take (nat cnt) due else due)"

definition zcard :: "zentry list \<Rightarrow> int" where
  "zcard z = int (length z)"

text \<open>
  A connection to the store: the sorted set, the number of commands sent so far, and a
  script saying for each coming send whether it meets a connectivity failure (an
  exhausted script means the store is reachable). A failed send leaves the data as it
  was.

  The program builds its client from the address alone, so the client keeps its default
  of 3 re-sends: one call of the client sends the command and, as long as the send
  fails and re-sends are left, sends it again. \<open>sends k fs\<close> says whether a call with
  \<open>k\<close> re-sends left fails on the script \<open>fs\<close>, and how many sends it makes. The
  call fails, and the caller sees an error, when the last send allowed has failed too.
\<close>

record redis =
  zset :: "zentry list"
  issued :: nat
  faults :: "bool list"

definition client_retries :: nat where
  "client_retries = 3"

fun sends :: "nat \<Rightarrow> bool list \<Rightarrow> bool \<times> nat" where
  "sends k [] = (False, 1)"
| "sends k (b # bs) =
     (if \<not> b then (False, 1)
      else if k = 0 then (True, 1)
      else (fst (sends (k - 1) bs), Suc (snd (sends (k - 1) bs))))"

definition fails_next :: "redis \<Rightarrow> bool" where
  "fails_next r = fst (sends client_retries (faults r))"

definition consume :: "redis \<Rightarrow> redis" where
  "consume r =
     r\<lparr>issued := issued r + snd (sends client_retries (faults r)),
       faults := drop (snd (sends client_retries (faults r))) (faults r)\<rparr>"

definition ZAdd :: "redis \<Rightarrow> string \<Rightarrow> int \<Rightarrow> error option \<times> redis" where
  "ZAdd r m s =
     (if fails_next r then (Some RedisError, consume r)
      else (None, (consume r)\<lparr>zset := zadd (zset r) m s\<rparr>))"

definition ZRem :: "redis \<Rightarrow> string \<Rightarrow> (error + int) \<times> redis" where
  "ZRem r m =
     (if fails_next r then (Inl RedisError, consume r)
      else (Inr (zrem_count (zset r) m), (consume r)\<lparr>zset := zrem (zset r) m\<rparr>))"

definition ZRangeByScoreWithScores ::
    "redis \<Rightarrow> int \<Rightarrow> int \<Rightarrow> (error + zentry list) \<times> redis" where
  "ZRangeByScoreWithScores r mx cnt =
     (if fails_next r then (Inl RedisError, consume r)
      else (Inr (zrangebyscore (zset r) mx cnt), consume r))"

definition ZCard :: "redis \<Rightarrow> (error + int) \<times> redis" where
  "ZCard r =
     (if fails_next r then (Inl RedisError, consume r)
      else (Inr (zcard (zset r)), consume r))"

section \<open>The scheduling queue\<close>

definition Enqueue :: "(uuid \<Rightarrow> string) \<Rightarrow> redis \<Rightarrow> uuid \<Rightarrow> time \<Rightarrow> error option \<times> redis" where
  "Enqueue idstr q postID scheduledAt = ZAdd q (idstr postID) (Unix scheduledAt)"

definition Remove :: "(uuid \<Rightarrow> string) \<Rightarrow> redis \<Rightarrow> uuid \<Rightarrow> error option \<times> redis" where
  "Remove idstr q postID =
     (case ZRem q (idstr postID) of
        (Inl e, q') \<Rightarrow> (Some e, q')
      | (Inr n, q') \<Rightarrow> (None, q'))"

definition Update :: "(uuid \<Rightarrow> string) \<Rightarrow> redis \<Rightarrow> uuid \<Rightarrow> time \<Rightarrow> error option \<times> redis" where
  "Update idstr q postID scheduledAt = Enqueue idstr q postID scheduledAt"

text \<open>
  The loop of \<open>GetDuePosts\<close> over the scanned entries. A member that does not parse
  is passed over before any command is issued for it; a removal that fails, or that
  reports nothing removed, passes the member over as well. (Members of a sorted set are
  always strings, so the type assertion of the source cannot fail.)
\<close>

fun claim_loop ::
    "(string \<Rightarrow> uuid option) \<Rightarrow> zentry list \<Rightarrow> redis \<Rightarrow> uuid list \<Rightarrow> uuid list \<times> redis" where
  "claim_loop parse [] q postIDs = (postIDs, q)"
| "claim_loop parse (result # results) q postIDs =
     (case parse (fst result) of
        None \<Rightarrow> claim_loop parse results q postIDs
      | Some postID \<Rightarrow>
          (case ZRem q (fst result) of
             (Inl e, q') \<Rightarrow> claim_loop parse results q' postIDs
           | (Inr removed, q') \<Rightarrow>
               if removed = 0 then claim_loop parse results q' postIDs
               else claim_loop parse results q' (postIDs @ [postID])))"

definition GetDuePosts ::
    "(string \<Rightarrow> uuid option) \<Rightarrow> redis \<Rightarrow> time \<Rightarrow> int \<Rightarrow> (error + uuid list) \<times> redis" where
  "GetDuePosts parse q now maxCount =
     (case ZRangeByScoreWithScores q (Unix now) maxCount of
        (Inl e, q') \<Rightarrow> (Inl e, q')
      | (Inr results, q') \<Rightarrow>
          (case claim_loop parse results q' [] of (postIDs, q'') \<Rightarrow> (Inr postIDs, q'')))"

definition GetQueueLength :: "redis \<Rightarrow> (error + int) \<times> redis" where
  "GetQueueLength q = ZCard q"

definition members :: "redis \<Rightarrow> string set" where
  "members q = fst ` set (zset q)"

section \<open>The posts table\<close>

datatype PostStatus = PostStatusScheduled | PostStatusPublished | PostStatusFailed

datatype Channel = ChannelTwitter | ChannelLinkedIn | ChannelFacebook

record Post =
  ID :: uuid
  UserID :: uuid
  Title :: "string option"
  Content :: string
  Channel :: Channel
  Status :: PostStatus
  ScheduledAt :: time
  PublishedAt :: "time option"
  RetryCount :: int
  LastError :: "string option"
  NextRetryAt :: "time option"
  CreatedAt :: time
  UpdatedAt :: time

text \<open>
  The table \<open>posts\<close> maps the primary key to the row. Every statement is one round trip
  to the database, which may meet a connectivity failure (scripted as for the queue's
  store); a failed statement changes nothing. \<open>NOW()\<close> is the database clock, passed
  as \<open>dbnow\<close>.
\<close>

record database =
  posts :: "uuid \<rightharpoonup> Post"
  db_faults :: "bool list"

definition db_fails_next :: "database \<Rightarrow> bool" where
  "db_fails_next d = (case db_faults d of [] \<Rightarrow> False | b # _ \<Rightarrow> b)"

definition db_consume :: "database \<Rightarrow> database" where
  "db_consume d = d\<lparr>db_faults := tl (db_faults d)\<rparr>"

text \<open>
  The statements that return a row list ten columns and leave the three retry columns
  out, so the struct handed back keeps Go's zero values there.
\<close>

definition returning :: "Post \<Rightarrow> Post" where
  "returning p = p\<lparr>RetryCount := 0, LastError := None, NextRetryAt := None\<rparr>"

text \<open>
  An instant sent to the database as a statement argument is stored in a
  \<open>TIMESTAMPTZ\<close> column, which keeps microseconds: the nanoseconds below the
  microsecond are cut off.
\<close>

definition to_timestamptz :: "time \<Rightarrow> time" where
  "to_timestamptz t = (t div 1000) * 1000"

definition coalesce :: "'a option \<Rightarrow> 'a \<Rightarrow> 'a" where
  "coalesce new old = (case new of None \<Rightarrow> old | Some v \<Rightarrow> v)"

definition UpdatePost ::
    "database \<Rightarrow> time \<Rightarrow> uuid \<Rightarrow> uuid \<Rightarrow> string option \<Rightarrow> string option \<Rightarrow> Channel option
       \<Rightarrow> time option \<Rightarrow> (error + Post option) \<times> database" where
  "UpdatePost d dbnow pid userID title content channel scheduledAt =
     (if db_fails_next d then (Inl DBError, db_consume d)
      else case posts d pid of
        None \<Rightarrow> (Inr None, db_consume d)
      | Some p \<Rightarrow>
          if UserID p = userID \<and> Status p = PostStatusScheduled then
            let p' = p\<lparr>Title := (case title of None \<Rightarrow> Title p | Some t \<Rightarrow> Some t),
                       Content := coalesce content (Content p),
                       Channel := coalesce channel (Channel p),
                       ScheduledAt := coalesce (map_option to_timestamptz scheduledAt)
                                        (ScheduledAt p),
                       UpdatedAt := dbnow\<rparr>
            in (Inr (Some (returning p')), (db_consume d)\<lparr>posts := (posts d)(pid \<mapsto> p')\<rparr>)
          else (Inr None, db_consume d))"

definition DeletePost :: "database \<Rightarrow> uuid \<Rightarrow> uuid \<Rightarrow> (error + bool) \<times> database" where
  "DeletePost d pid userID =
     (if db_fails_next d then (Inl DBError, db_consume d)
      else case posts d pid of
        None \<Rightarrow> (Inr False, db_consume d)
      | Some p \<Rightarrow>
          if UserID p = userID \<and> Status p = PostStatusScheduled then
            (Inr True, (db_consume d)\<lparr>posts := (posts d)(pid := None)\<rparr>)
          else (Inr False, db_consume d))"

definition PublishPost :: "database \<Rightarrow> time \<Rightarrow> uuid \<Rightarrow> (error + Post option) \<times> database" where
  "PublishPost d dbnow pid =
     (if db_fails_next d then (Inl DBError, db_consume d)
      else case posts d pid of
        None \<Rightarrow> (Inr None, db_consume d)
      | Some p \<Rightarrow>
          if Status p = PostStatusScheduled then
            let p' = p\<lparr>Status := PostStatusPublished, PublishedAt := Some dbnow,
                       UpdatedAt := dbnow\<rparr>
            in (Inr (Some (returning p')), (db_consume d)\<lparr>posts := (posts d)(pid \<mapsto> p')\<rparr>)
          else (Inr None, db_consume d))"

definition MarkPostFailed :: "database \<Rightarrow> time \<Rightarrow> uuid \<Rightarrow> string \<Rightarrow> error option \<times> database" where
  "MarkPostFailed d dbnow pid errorMsg =
     (if db_fails_next d then (Some DBError, db_consume d)
      else case posts d pid of
        None \<Rightarrow> (None, db_consume d)
      | Some p \<Rightarrow>
          (None, (db_consume d)\<lparr>posts := (posts d)(pid \<mapsto>
             p\<lparr>Status := PostStatusFailed, LastError := Some errorMsg, UpdatedAt := dbnow\<rparr>)\<rparr>))"

definition ScheduleRetry ::
    "database \<Rightarrow> time \<Rightarrow> uuid \<Rightarrow> time \<Rightarrow> string \<Rightarrow> error option \<times> database" where
  "ScheduleRetry d dbnow pid nextRetryAt errorMsg =
     (if db_fails_next d then (Some DBError, db_consume d)
      else case posts d pid of
        None \<Rightarrow> (None, db_consume d)
      | Some p \<Rightarrow>
          if Status p = PostStatusScheduled then
            (None, (db_consume d)\<lparr>posts := (posts d)(pid \<mapsto>
               p\<lparr>RetryCount := RetryCount p + 1, LastError := Some errorMsg,
                 NextRetryAt := Some (to_timestamptz nextRetryAt),
                 UpdatedAt := dbnow\<rparr>)\<rparr>)
          else (None, db_consume d))"

definition GetPostForRetry :: "database \<Rightarrow> uuid \<Rightarrow> (error + Post option) \<times> database" where
  "GetPostForRetry d pid =
     (if db_fails_next d then (Inl DBError, db_consume d)
      else (Inr (posts d pid), db_consume d))"

text \<open>A post has reached a terminal status when it is published or failed.\<close>

definition terminal :: "Post \<Rightarrow> bool" where
  "terminal p = (Status p = PostStatusPublished \<or> Status p = PostStatusFailed)"

section \<open>The worker\<close>

definition MaxRetries :: int where
  "MaxRetries = 3"

text \<open>
  What the worker acts on: the database, the queue, and the calls it makes to its two
  other collaborators (both configured), recorded in order: the users whose cached lists
  were invalidated and the notifications handed to the notifier.
\<close>

record world =
  wdb :: database
  wqueue :: redis
  invalidated :: "uuid list"
  notified :: "(uuid \<times> string) list"

text \<open>
  \<open>math.Pow(2, float64(retryCount))\<close> converted to a whole number of minutes. The
  conversion truncates, so a negative exponent (a power strictly between 0 and 1) gives
  0; the exponents that reach this point are below \<open>MaxRetries\<close>, where the power is
  exact. \<open>RetryCount\<close> is read from a 32-bit column, so adding 1 does not overflow
  Go's 64-bit \<open>int\<close>.
\<close>

definition backoffMinutes :: "int \<Rightarrow> int" where
  "backoffMinutes retryCount = (if 0 \<le> retryCount then 2 ^ nat retryCount else 0)"

definition handlePublishError ::
    "(uuid \<Rightarrow> string) \<Rightarrow> world \<Rightarrow> time \<Rightarrow> time \<Rightarrow> Post \<Rightarrow> string \<Rightarrow> error option \<times> world" where
  "handlePublishError idstr w now dbnow post errorMsg =
     (let retryCount = RetryCount post + 1 in
      if retryCount \<ge> MaxRetries then
        (case MarkPostFailed (wdb w) dbnow (ID post) errorMsg of
           (r, d') \<Rightarrow> (r, w\<lparr>wdb := d'\<rparr>))
      else
        let nextRetryAt = now + backoffMinutes retryCount * Minute in
        (case ScheduleRetry (wdb w) dbnow (ID post) nextRetryAt errorMsg of
           (Some e, d') \<Rightarrow> (Some e, w\<lparr>wdb := d'\<rparr>)
         | (None, d') \<Rightarrow>
             (case Enqueue idstr (wqueue w) (ID post) nextRetryAt of
                (r, q') \<Rightarrow> (r, w\<lparr>wdb := d', wqueue := q'\<rparr>))))"

text \<open>
  The publish operation is a replaceable step: it returns nothing on success or the text
  of the failure. The one in the source is a stub that never fails.
\<close>

definition mockPublish :: "Post \<Rightarrow> string option" where
  "mockPublish post = None"

definition UpdateTypePublish :: string where
  "UpdateTypePublish = ''publish''"

definition publishPost ::
    "(Post \<Rightarrow> string option) \<Rightarrow> (uuid \<Rightarrow> string) \<Rightarrow> world \<Rightarrow> time \<Rightarrow> time \<Rightarrow> uuid
       \<Rightarrow> error option \<times> world" where
  "publishPost publish idstr w now dbnow postID =
     (case GetPostForRetry (wdb w) postID of
        (Inl e, d') \<Rightarrow> (Some e, w\<lparr>wdb := d'\<rparr>)
      | (Inr None, d') \<Rightarrow> (None, w\<lparr>wdb := d'\<rparr>)
      | (Inr (Some post), d') \<Rightarrow>
          if Status post \<noteq> PostStatusScheduled then (None, w\<lparr>wdb := d'\<rparr>)
          else
            (case publish post of
               Some errorMsg \<Rightarrow> handlePublishError idstr (w\<lparr>wdb := d'\<rparr>) now dbnow post errorMsg
             | None \<Rightarrow>
                 (case PublishPost d' dbnow postID of
                    (Inl e, d'') \<Rightarrow> (Some e, w\<lparr>wdb := d''\<rparr>)
                  | (Inr None, d'') \<Rightarrow> (None, w\<lparr>wdb := d''\<rparr>)
                  | (Inr (Some publishedPost), d'') \<Rightarrow>
                      (None, w\<lparr>wdb := d'',
                               invalidated := invalidated w @ [UserID post],
                               notified := notified w @ [(UserID post, UpdateTypePublish)]\<rparr>))))"

text \<open>
  One pass of the worker: claim up to 100 due ids, then publish them one after the other;
  an error on one post is logged and the pass goes on.
\<close>

fun publish_each ::
    "(Post \<Rightarrow> string option) \<Rightarrow> (uuid \<Rightarrow> string) \<Rightarrow> world \<Rightarrow> time \<Rightarrow> time \<Rightarrow> uuid list
       \<Rightarrow> world" where
  "publish_each publish idstr w now dbnow [] = w"
| "publish_each publish idstr w now dbnow (postID # postIDs) =
     publish_each publish idstr (snd (publishPost publish idstr w now dbnow postID))
       now dbnow postIDs"

definition processDuePosts ::
    "(Post \<Rightarrow> string option) \<Rightarrow> (uuid \<Rightarrow> string) \<Rightarrow> (string \<Rightarrow> uuid option) \<Rightarrow> world \<Rightarrow> time
       \<Rightarrow> time \<Rightarrow> world" where
  "processDuePosts publish idstr parse w now dbnow =
     (case GetDuePosts parse (wqueue w) now 100 of
        (Inl e, q') \<Rightarrow> w\<lparr>wqueue := q'\<rparr>
      | (Inr postIDs, q') \<Rightarrow> publish_each publish idstr (w\<lparr>wqueue := q'\<rparr>) now dbnow postIDs)"

section \<open>Several callers of GetDuePosts against one store\<close>

text \<open>
  The store executes one command at a time, so callers racing against the same queue
  interleave at the granularity of single calls to the client (a send that fails changes
  nothing, so a call acts on the store at the moment of its last send). A caller is at
  one of these points
  of \<open>GetDuePosts\<close>: about to issue the range scan (with its clock reading and its
  limit), inside the loop with the entries still to visit and the ids collected so far,
  or returned (with its ids or with the error of the scan).
\<close>

datatype caller =
    Calling time int
  | Looping "zentry list" "uuid list"
  | Returned "uuid list"
  | ReturnedError error

fun caller_step :: "(string \<Rightarrow> uuid option) \<Rightarrow> redis \<Rightarrow> caller \<Rightarrow> redis \<times> caller" where
  "caller_step parse q (Calling now maxCount) =
     (case ZRangeByScoreWithScores q (Unix now) maxCount of
        (Inl e, q') \<Rightarrow> (q', ReturnedError e)
      | (Inr results, q') \<Rightarrow> (q', Looping results []))"
| "caller_step parse q (Looping [] postIDs) = (q, Returned postIDs)"
| "caller_step parse q (Looping (result # results) postIDs) =
     (case parse (fst result) of
        None \<Rightarrow> (q, Looping results postIDs)
      | Some postID \<Rightarrow>
          (case ZRem q (fst result) of
             (Inl e, q') \<Rightarrow> (q', Looping results postIDs)
           | (Inr removed, q') \<Rightarrow>
               if removed = 0 then (q', Looping results postIDs)
               else (q', Looping results (postIDs @ [postID]))))"
| "caller_step parse q (Returned postIDs) = (q, Returned postIDs)"
| "caller_step parse q (ReturnedError e) = (q, ReturnedError e)"

text \<open>
  A schedule names, step by step, the caller that moves next; any list of indices is a
  possible interleaving.
\<close>

fun interleave ::
    "(string \<Rightarrow> uuid option) \<Rightarrow> nat list \<Rightarrow> redis \<times> caller list \<Rightarrow> redis \<times> caller list" where
  "interleave parse [] st = st"
| "interleave parse (i # sched) (q, cs) =
     (if i < length cs then
        (case caller_step parse q (cs ! i) of
           (q', c') \<Rightarrow> interleave parse sched (q', cs[i := c']))
      else interleave parse sched (q, cs))"

fun collected :: "caller \<Rightarrow> uuid list" where
  "collected (Calling now maxCount) = []"
| "collected (Looping results postIDs) = postIDs"
| "collected (Returned postIDs) = postIDs"
| "collected (ReturnedError e) = []"

fun not_started :: "caller \<Rightarrow> bool" where
  "not_started (Calling now maxCount) = True"
| "not_started c = False"

section \<open>The notifier\<close>

record PostUpdate =
  update_UserID :: uuid
  update_Type :: string

definition UpdateTypeCreate :: string where
  "UpdateTypeCreate = ''create''"

definition UpdateTypeUpdate :: string where
  "UpdateTypeUpdate = ''update''"

definition UpdateTypeDelete :: string where
  "UpdateTypeDelete = ''delete''"

text \<open>
  A Go channel made by \<open>make(chan PostUpdate, 10)\<close>: the values buffered and not yet
  received, and whether it has been closed. Channels are shared objects, so the notifier
  holds references into a store of channels; \<open>next_chan\<close> is the next unused
  reference. \<open>published\<close> lists the payloads this process has published on the
  \<open>post_updates\<close> bus, in order.

  When a Redis client is given, \<open>NewNotifier\<close> subscribes the process to the bus
  (\<open>pubsub\<close> says that the subscription exists) and starts the relay, which runs from
  then on. The bus hands every payload published on it to every subscription, that of the
  publishing process included; \<open>inbox\<close> holds the payloads that have arrived on this
  process's subscription and that the relay has not taken yet.
\<close>

record channel =
  buf :: "PostUpdate list"
  closed :: bool

definition chan_cap :: nat where
  "chan_cap = 10"

record Notifier =
  subscribers :: "uuid \<rightharpoonup> nat list"
  chans :: "nat \<rightharpoonup> channel"
  next_chan :: nat
  has_redis :: bool
  pubsub :: bool
  published :: "string list"
  inbox :: "string list"

definition NewNotifier :: "bool \<Rightarrow> Notifier" where
  "NewNotifier redisClient =
     \<lparr>subscribers = Map.empty, chans = Map.empty, next_chan = 0,
      has_redis = redisClient, pubsub = redisClient, published = [], inbox = []\<rparr>"

text \<open>Reading a missing key of a Go map gives the nil slice.\<close>

definition subs :: "Notifier \<Rightarrow> uuid \<Rightarrow> nat list" where
  "subs n userID = (case subscribers n userID of None \<Rightarrow> [] | Some chs \<Rightarrow> chs)"

definition Subscribe :: "Notifier \<Rightarrow> uuid \<Rightarrow> nat \<times> Notifier" where
  "Subscribe n userID =
     (let ch = next_chan n in
      (ch, n\<lparr>subscribers := (subscribers n)(userID \<mapsto> subs n userID @ [ch]),
             chans := (chans n)(ch \<mapsto> \<lparr>buf = [], closed = False\<rparr>),
             next_chan := Suc ch\<rparr>))"

definition close_chan :: "(nat \<rightharpoonup> channel) \<Rightarrow> nat \<Rightarrow> (nat \<rightharpoonup> channel)" where
  "close_chan h ch = (case h ch of None \<Rightarrow> h | Some c \<Rightarrow> h(ch \<mapsto> c\<lparr>closed := True\<rparr>))"

definition Unsubscribe :: "Notifier \<Rightarrow> uuid \<Rightarrow> nat \<Rightarrow> Notifier" where
  "Unsubscribe n userID ch =
     (let n1 = (if ch \<in> set (subs n userID)
                then n\<lparr>subscribers := (subscribers n)(userID \<mapsto> remove1 ch (subs n userID)),
                       chans := close_chan (chans n) ch\<rparr>
                else n)
      in if length (subs n1 userID) = 0
         then n1\<lparr>subscribers := (subscribers n1)(userID := None)\<rparr>
         else n1)"

text \<open>
  The loop of \<open>notifyLocal\<close>: a \<open>select\<close> with a \<open>default\<close> branch around each
  send. The send proceeds when the buffer has room; with a full buffer (or a nil
  channel) the default branch is taken; a send on a closed channel panics, which is the
  result \<open>None\<close>.
\<close>

fun send_each ::
    "PostUpdate \<Rightarrow> nat list \<Rightarrow> (nat \<rightharpoonup> channel) \<Rightarrow> int \<Rightarrow> (int \<times> (nat \<rightharpoonup> channel)) option" where
  "send_each update [] h sent = Some (sent, h)"
| "send_each update (ch # chs) h sent =
     (case h ch of
        None \<Rightarrow> send_each update chs h sent
      | Some c \<Rightarrow>
          if closed c then None
          else if length (buf c) < chan_cap
          then send_each update chs (h(ch \<mapsto> c\<lparr>buf := buf c @ [update]\<rparr>)) (sent + 1)
          else send_each update chs h sent)"

definition notifyLocal :: "Notifier \<Rightarrow> uuid \<Rightarrow> string \<Rightarrow> (int \<times> Notifier) option" where
  "notifyLocal n userID updateType =
     (let subscribers = subs n userID in
      if length subscribers = 0 then Some (0, n)
      else
        (case send_each \<lparr>update_UserID = userID, update_Type = updateType\<rparr>
                subscribers (chans n) 0 of
           None \<Rightarrow> None
         | Some (sent, h) \<Rightarrow> Some (sent, n\<lparr>chans := h\<rparr>)))"

text \<open>
  \<open>Notify\<close> delivers locally and then, when a Redis client is configured, publishes the
  JSON encoding of the update on the bus. The encoder \<open>marshal\<close> is the library's;
  \<open>bus_ok\<close> says whether the publish command reached the store (its error is dropped).
  A payload that reaches the bus arrives on the process's own subscription as well.
\<close>

definition Notify ::
    "(PostUpdate \<Rightarrow> string option) \<Rightarrow> bool \<Rightarrow> Notifier \<Rightarrow> uuid \<Rightarrow> string \<Rightarrow> Notifier option" where
  "Notify marshal bus_ok n userID updateType =
     (let update = \<lparr>update_UserID = userID, update_Type = updateType\<rparr> in
      case notifyLocal n userID updateType of
        None \<Rightarrow> None
      | Some (subscriberCount, n') \<Rightarrow>
          if has_redis n' then
            (case marshal update of
               Some data \<Rightarrow>
                 Some (if bus_ok
                       then n'\<lparr>published := published n' @ [data],
                               inbox := (if pubsub n' then inbox n' @ [data] else inbox n')\<rparr>
                       else n')
             | None \<Rightarrow> Some n')
          else Some n')"

text \<open>
  The relay \<open>listenRedis\<close> runs over the payloads received from the bus until the
  subscription is closed; \<open>unmarshal\<close> is the library's JSON decoder.
\<close>

fun listenRedis ::
    "(string \<Rightarrow> PostUpdate option) \<Rightarrow> Notifier \<Rightarrow> string list \<Rightarrow> Notifier option" where
  "listenRedis unmarshal n [] = Some n"
| "listenRedis unmarshal n (payload # msgs) =
     (case unmarshal payload of
        None \<Rightarrow> listenRedis unmarshal n msgs
      | Some update \<Rightarrow>
          (case notifyLocal n (update_UserID update) (update_Type update) of
             None \<Rightarrow> None
           | Some (subscriberCount, n') \<Rightarrow> listenRedis unmarshal n' msgs))"

text \<open>
  The relay goroutine at work: it takes what has arrived on the subscription, in order,
  and runs the loop of \<open>listenRedis\<close> over it. A process without subscription has
  no relay.
\<close>

definition relay :: "(string \<Rightarrow> PostUpdate option) \<Rightarrow> Notifier \<Rightarrow> Notifier option" where
  "relay unmarshal n =
     (if pubsub n then listenRedis unmarshal (n\<lparr>inbox := []\<rparr>) (inbox n) else Some n)"

definition SubscriberCount :: "Notifier \<Rightarrow> uuid \<Rightarrow> int" where
  "SubscriberCount n userID = int (length (subs n userID))"

definition buffer :: "Notifier \<Rightarrow> nat \<Rightarrow> PostUpdate list" where
  "buffer n ch = (case chans n ch of None \<Rightarrow> [] | Some c \<Rightarrow> buf c)"

text \<open>
  The registry as \<open>Subscribe\<close> and \<open>Unsubscribe\<close> keep it: the channels listed under
  a user are different objects, exist, are open, and were allocated before
  \<open>next_chan\<close>; no channel is listed under two users.
\<close>

definition registry_ok :: "Notifier \<Rightarrow> bool" where
  "registry_ok n =
     ((\<forall>u. distinct (subs n u) \<and>
          (\<forall>ch \<in> set (subs n u). ch < next_chan n \<and>
              (\<exists>c. chans n ch = Some c \<and> \<not> closed c))) \<and>
      (\<forall>u v. u \<noteq> v \<longrightarrow> set (subs n u) \<inter> set (subs n v) = {}))"

section \<open>The event stream handler\<close>

fun show_nat :: "nat \<Rightarrow> string" where
  "show_nat n =
     (if n < 10 then [''0123456789'' ! n]
      else show_nat (n div 10) @ [''0123456789'' ! (n mod 10)])"

declare show_nat.simps [simp del]

definition show_int :: "int \<Rightarrow> string" where
  "show_int i = (if i < 0 then CHR ''-'' # show_nat (nat (- i)) else show_nat (nat i))"

fun status_string :: "PostStatus \<Rightarrow> string" where
  "status_string PostStatusScheduled = ''scheduled''"
| "status_string PostStatusPublished = ''published''"
| "status_string PostStatusFailed = ''failed''"

definition hash_entry :: "(uuid \<Rightarrow> string) \<Rightarrow> Post \<Rightarrow> string" where
  "hash_entry idstr p =
     idstr (ID p) @ '':'' @ status_string (Status p) @ '':'' @ show_int (Unix (UpdatedAt p)) @ '';''"

definition hashPosts :: "(uuid \<Rightarrow> string) \<Rightarrow> Post list \<Rightarrow> string" where
  "hashPosts idstr ps =
     (if length ps = 0 then ''empty''
      else foldl (\<lambda>result p. result @ hash_entry idstr p) [] ps)"

text \<open>
  What the handler has written to the client, and the two fingerprints it remembers.
  \<open>write_faults\<close> scripts the coming writes to the connection (true: the write
  fails); \<open>running\<close> is false once the handler has returned.
\<close>

datatype frame = ConnectedFrame | UpdateFrame string | KeepaliveFrame

record stream =
  lastUpcomingHash :: string
  lastHistoryHash :: string
  written :: "frame list"
  write_faults :: "bool list"
  running :: bool

definition Fprintf :: "stream \<Rightarrow> frame \<Rightarrow> bool \<times> stream" where
  "Fprintf s f =
     (case write_faults s of
        [] \<Rightarrow> (True, s\<lparr>written := written s @ [f]\<rparr>)
      | b # bs \<Rightarrow>
          if b then (False, s\<lparr>write_faults := bs\<rparr>)
          else (True, s\<lparr>written := written s @ [f], write_faults := bs\<rparr>))"

definition or_empty :: "error + Post list \<Rightarrow> Post list" where
  "or_empty r = (case r of Inl e \<Rightarrow> [] | Inr ps \<Rightarrow> ps)"

datatype http_error = Unauthorized | InternalServerError

text \<open>
  The handler up to its loop. \<open>marshal\<close> is the JSON encoder applied to the two lists;
  the two reads are the results of \<open>GetUpcomingPosts\<close> and \<open>GetPublishedPosts\<close>,
  whose errors are dropped here.
\<close>

definition StreamPosts_begin ::
    "(Post list \<Rightarrow> Post list \<Rightarrow> string option) \<Rightarrow> (uuid \<Rightarrow> string) \<Rightarrow> bool \<Rightarrow> bool \<Rightarrow> bool list
       \<Rightarrow> error + Post list \<Rightarrow> error + Post list \<Rightarrow> http_error + stream" where
  "StreamPosts_begin marshal idstr has_user has_flusher conn upcoming_read history_read =
     (if \<not> has_user then Inl Unauthorized
      else if \<not> has_flusher then Inl InternalServerError
      else
        let s0 = \<lparr>lastUpcomingHash = [], lastHistoryHash = [], written = [],
                  write_faults = conn, running = True\<rparr> in
        (case Fprintf s0 ConnectedFrame of
           (False, s1) \<Rightarrow> Inr (s1\<lparr>running := False\<rparr>)
         | (True, s1) \<Rightarrow>
             let upcoming = or_empty upcoming_read;
                 history = or_empty history_read;
                 s2 = s1\<lparr>lastUpcomingHash := hashPosts idstr upcoming,
                         lastHistoryHash := hashPosts idstr history\<rparr>;
                 jsonData = (case marshal upcoming history of None \<Rightarrow> [] | Some j \<Rightarrow> j)
             in Inr (snd (Fprintf s2 (UpdateFrame jsonData)))))"

text \<open>
  The sources the loop's \<open>select\<close> waits on: the request context ending, the keepalive
  ticker, and the update ticker (carrying what the two reads return at that moment).
\<close>

datatype event = Done | KeepaliveTick | Tick "error + Post list" "error + Post list"

fun on_event ::
    "(Post list \<Rightarrow> Post list \<Rightarrow> string option) \<Rightarrow> (uuid \<Rightarrow> string) \<Rightarrow> stream \<Rightarrow> event \<Rightarrow> stream" where
  "on_event marshal idstr s Done = s\<lparr>running := False\<rparr>"
| "on_event marshal idstr s KeepaliveTick =
     (case Fprintf s KeepaliveFrame of
        (False, s') \<Rightarrow> s'\<lparr>running := False\<rparr>
      | (True, s') \<Rightarrow> s')"
| "on_event marshal idstr s (Tick upcoming_read history_read) =
     (case upcoming_read of
        Inl e \<Rightarrow> s
      | Inr upcoming \<Rightarrow>
          (case history_read of
             Inl e \<Rightarrow> s
           | Inr history \<Rightarrow>
               let upcomingHash = hashPosts idstr upcoming;
                   historyHash = hashPosts idstr history
               in if upcomingHash \<noteq> lastUpcomingHash s \<or> historyHash \<noteq> lastHistoryHash s
                  then
                    let s1 = s\<lparr>lastUpcomingHash := upcomingHash, lastHistoryHash := historyHash\<rparr>
                    in (case marshal upcoming history of
                          None \<Rightarrow> s1
                        | Some jsonData \<Rightarrow>
                            (case Fprintf s1 (UpdateFrame jsonData) of
                               (False, s2) \<Rightarrow> s2\<lparr>running := False\<rparr>
                             | (True, s2) \<Rightarrow> s2))
                  else s))"

fun StreamPosts_loop ::
    "(Post list \<Rightarrow> Post list \<Rightarrow> string option) \<Rightarrow> (uuid \<Rightarrow> string) \<Rightarrow> stream \<Rightarrow> event list \<Rightarrow> stream" where
  "StreamPosts_loop marshal idstr s [] = s"
| "StreamPosts_loop marshal idstr s (ev # evs) =
     (if running s then StreamPosts_loop marshal idstr (on_event marshal idstr s ev) evs
      else s)"

fun is_update :: "frame \<Rightarrow> bool" where
  "is_update (UpdateFrame j) = True"
| "is_update f = False"

definition pushes :: "stream \<Rightarrow> nat" where
  "pushes s = length (filter is_update (written s))"

text \<open>
  One API process: its notifier and the handler serving one connected client. What can
  happen next is either a call of \<open>Notify\<close> somewhere in the process or one of the
  events the handler's loop waits on. The handler is constructed from the database alone
  and holds no reference to the notifier, so a \<open>Notify\<close> call acts on the notifier
  only.
\<close>

record process =
  proc_notifier :: Notifier
  proc_stream :: stream

datatype occurrence = NotifyCall uuid string | HandlerEvent event

definition process_step ::
    "(PostUpdate \<Rightarrow> string option) \<Rightarrow> (Post list \<Rightarrow> Post list \<Rightarrow> string option) \<Rightarrow> (uuid \<Rightarrow> string)
       \<Rightarrow> process \<Rightarrow> occurrence \<Rightarrow> process" where
  "process_step marshal_update marshal idstr p occ =
     (case occ of
        NotifyCall userID updateType \<Rightarrow>
          (case Notify marshal_update True (proc_notifier p) userID updateType of
             None \<Rightarrow> p
           | Some n' \<Rightarrow> p\<lparr>proc_notifier := n'\<rparr>)
      | HandlerEvent ev \<Rightarrow>
          p\<lparr>proc_stream := StreamPosts_loop marshal idstr (proc_stream p) [ev]\<rparr>)"

section \<open>Notions used to state the properties\<close>

text \<open>
  Between the store before an operation and the store after it, a connectivity failure
  was met when one of the sends made in between is scripted to fail.
\<close>

definition failure_met :: "redis \<Rightarrow> redis \<Rightarrow> bool" where
  "failure_met q q' = (True \<in> set (take (issued q' - issued q) (faults q)))"

text \<open>
  What the next \<open>n\<close> calls of the client meet on a script: for each call, whether it
  fails. Of the entries \<open>rs\<close> that a scan returned, the candidates are those whose
  member parses; \<open>removed_by\<close> are the candidates whose removal call does not fail.
\<close>

fun call_outcomes :: "nat \<Rightarrow> bool list \<Rightarrow> bool list" where
  "call_outcomes 0 fs = []"
| "call_outcomes (Suc n) fs =
     fst (sends client_retries fs)
       # call_outcomes n (drop (snd (sends client_retries fs)) fs)"

definition candidates :: "(string \<Rightarrow> uuid option) \<Rightarrow> zentry list \<Rightarrow> zentry list" where
  "candidates parse rs = filter (\<lambda>e. parse (fst e) \<noteq> None) rs"

definition removed_by ::
    "(string \<Rightarrow> uuid option) \<Rightarrow> zentry list \<Rightarrow> bool list \<Rightarrow> zentry list" where
  "removed_by parse rs fs =
     map fst (filter (\<lambda>p. \<not> snd p)
       (zip (candidates parse rs) (call_outcomes (length (candidates parse rs)) fs)))"

text \<open>
  The entries that the range command of \<open>GetDuePosts\<close> returns at clock reading
  \<open>now\<close> with limit \<open>maxCount\<close>: they are the entries its loop visits.
\<close>

definition scanned :: "redis \<Rightarrow> time \<Rightarrow> int \<Rightarrow> zentry list" where
  "scanned q now maxCount = zrangebyscore (zset q) (Unix now) maxCount"


text \<open>
  The invariant of racing callers, relative to the members \<open>M\<close> the queue started
  with: the queue only shrinks, every id a caller has collected is the reading of a
  member that is no longer in the queue, no caller holds an id twice, and no two callers
  hold the same id.
\<close>

definition claim_inv ::
    "(string \<Rightarrow> uuid option) \<Rightarrow> string set \<Rightarrow> redis \<Rightarrow> caller list \<Rightarrow> bool" where
  "claim_inv parse M q cs =
     (members q \<subseteq> M \<and>
      (\<forall>i < length cs. distinct (collected (cs ! i)) \<and>
          (\<forall>u \<in> set (collected (cs ! i)).
              \<exists>m \<in> M. parse m = Some u \<and> m \<notin> members q)) \<and>
      (\<forall>i < length cs. \<forall>j < length cs. i \<noteq> j \<longrightarrow>
          set (collected (cs ! i)) \<inter> set (collected (cs ! j)) = {}))"

text \<open>
  The effect of one round of non-blocking sends on a store of channels: a listed channel
  with room receives the update, every other channel stays as it is.
\<close>

definition has_room :: "(nat \<rightharpoonup> channel) \<Rightarrow> nat \<Rightarrow> bool" where
  "has_room h ch = (case h ch of None \<Rightarrow> False | Some c \<Rightarrow> length (buf c) < chan_cap)"

definition delivered :: "PostUpdate \<Rightarrow> nat list \<Rightarrow> (nat \<rightharpoonup> channel) \<Rightarrow> (nat \<rightharpoonup> channel)" where
  "delivered update chs h =
     (\<lambda>ch. if ch \<in> set chs \<and> has_room h ch
           then map_option (\<lambda>c. c\<lparr>buf := buf c @ [update]\<rparr>) (h ch)
           else h ch)"

section \<open>Sample data\<close>

text \<open>
  Two identifiers in their canonical text form. The sample formatter and parser agree
  with the library on these two identifiers and on the strings used below, which is all
  the examples need.
\<close>

definition id_text_1 :: string where
  "id_text_1 = ''00000000-0000-0000-0000-000000000001''"

definition id_text_2 :: string where
  "id_text_2 = ''00000000-0000-0000-0000-000000000002''"

definition sample_idstr :: "uuid \<Rightarrow> string" where
  "sample_idstr u = (if u = 1 then id_text_1 else id_text_2)"

definition sample_parse :: "string \<Rightarrow> uuid option" where
  "sample_parse s =
     (if s = id_text_1 then Some 1 else if s = id_text_2 then Some 2 else None)"

definition queue_one :: redis where
  "queue_one = \<lparr>zset = [(id_text_1, 5)], issued = 0, faults = []\<rparr>"

definition queue_removal_fails :: redis where
  "queue_removal_fails =
     \<lparr>zset = [(id_text_1, 0)], issued = 0, faults = [False, True, True, True, True]\<rparr>"

definition queue_transient_failure :: redis where
  "queue_transient_failure = \<lparr>zset = [], issued = 0, faults = [True, False]\<rparr>"

definition queue_unreachable :: redis where
  "queue_unreachable =
     \<lparr>zset = [(id_text_1, 0)], issued = 0, faults = [True, True, True, True]\<rparr>"

definition queue_second_removal_fails :: redis where
  "queue_second_removal_fails =
     \<lparr>zset = [(id_text_1, 0), (id_text_2, 0)], issued = 0,
      faults = [False, False, True, True, True, True]\<rparr>"



definition queue_two :: redis where
  "queue_two = \<lparr>zset = [(id_text_1, 0), (id_text_2, 0)], issued = 0, faults = []\<rparr>"

definition two_callers :: "caller list" where
  "two_callers = [Calling 1000000000 100, Calling 1000000000 100]"

definition published_post :: Post where
  "published_post =
     \<lparr>ID = 1, UserID = 7, Title = None, Content = ''hello'', Channel = ChannelTwitter,
      Status = PostStatusPublished, ScheduledAt = 0, PublishedAt = Some 5, RetryCount = 0,
      LastError = None, NextRetryAt = None, CreatedAt = 0, UpdatedAt = 5\<rparr>"

definition db_with_published :: database where
  "db_with_published = \<lparr>posts = [1 \<mapsto> published_post], db_faults = []\<rparr>"

definition scheduled_post :: Post where
  "scheduled_post =
     \<lparr>ID = 1, UserID = 7, Title = None, Content = ''hello'', Channel = ChannelTwitter,
      Status = PostStatusScheduled, ScheduledAt = 0, PublishedAt = None, RetryCount = 0,
      LastError = None, NextRetryAt = None, CreatedAt = 0, UpdatedAt = 0\<rparr>"

definition world_one :: world where
  "world_one =
     \<lparr>wdb = \<lparr>posts = [1 \<mapsto> scheduled_post], db_faults = []\<rparr>,
      wqueue = \<lparr>zset = [(id_text_1, 0)], issued = 0, faults = []\<rparr>,
      invalidated = [], notified = []\<rparr>"

text \<open>
  A publish step that always fails, and the worlds after one, two and three passes of the
  worker over the sample post, with the worker's clock at 1 s and 123 ns, at 121 s and at
  361 s.
\<close>

definition failing_publish :: "Post \<Rightarrow> string option" where
  "failing_publish = (\<lambda>p. Some ''api down'')"

definition after_first :: world where
  "after_first =
     processDuePosts failing_publish sample_idstr sample_parse world_one 1000000123 1000000000"

definition after_second :: world where
  "after_second =
     processDuePosts failing_publish sample_idstr sample_parse after_first
       121000000000 121000000000"

definition after_third :: world where
  "after_third =
     processDuePosts failing_publish sample_idstr sample_parse after_second
       361000000000 361000000000"

text \<open>
  A notifier with two subscriptions of user 7: channel 0 holds ten updates, channel 1
  none. A stand-in for the JSON codec of updates, defined on the one update the examples
  send over the bus.
\<close>

definition sample_update :: PostUpdate where
  "sample_update = \<lparr>update_UserID = 7, update_Type = ''update''\<rparr>"

definition notifier_one_full :: Notifier where
  "notifier_one_full =
     \<lparr>subscribers = [7 \<mapsto> [0, 1]],
      chans = [0 \<mapsto> \<lparr>buf = replicate 10 sample_update, closed = False\<rparr>,
               1 \<mapsto> \<lparr>buf = [], closed = False\<rparr>],
      next_chan = 2, has_redis = True, pubsub = True, published = [], inbox = []\<rparr>"

definition notifier_two_subscribers :: Notifier where
  "notifier_two_subscribers = snd (Subscribe (snd (Subscribe (NewNotifier True) 7)) 7)"

definition sample_marshal :: "PostUpdate \<Rightarrow> string option" where
  "sample_marshal u = (if u = sample_update then Some ''{user 7, update}'' else None)"

definition sample_unmarshal :: "string \<Rightarrow> PostUpdate option" where
  "sample_unmarshal s = (if s = ''{user 7, update}'' then Some sample_update else None)"

text \<open>
  A stand-in for the JSON encoder of the two lists, and one API process right after a
  client of user 7, who has no posts yet, has connected to the stream.
\<close>

definition sample_marshal_lists :: "Post list \<Rightarrow> Post list \<Rightarrow> string option" where
  "sample_marshal_lists upcoming history =
     Some (''{upcoming: '' @ show_nat (length upcoming) @ '', history: ''
             @ show_nat (length history) @ ''}'')"

definition stream_connected :: stream where
  "stream_connected =
     \<lparr>lastUpcomingHash = ''empty'', lastHistoryHash = ''empty'',
      written = [ConnectedFrame, UpdateFrame ''{upcoming: 0, history: 0}''],
      write_faults = [], running = True\<rparr>"

definition process_connected :: process where
  "process_connected = \<lparr>proc_notifier = NewNotifier True, proc_stream = stream_connected\<rparr>"

section \<open>The client's calls\<close>

lemma sends_count: "1 \<le> snd (sends k fs) \<and> snd (sends k fs) \<le> Suc k"
  by (induction k fs rule: sends.induct) auto

lemma sends_first_ok: "fs = [] \<or> \<not> hd fs \<Longrightarrow> sends k fs = (False, 1)"
  by (cases fs) auto

text \<open>A call fails exactly when the send and every re-send allowed meet a failure.\<close>

lemma sends_fails_iff: "fst (sends k fs) = (take (Suc k) fs = replicate (Suc k) True)"
proof (induction k fs rule: sends.induct)
  case (1 k)
  then show ?case by simp
next
  case (2 k b bs)
  show ?case
  proof (cases "b \<and> k \<noteq> 0")
    case True
    then obtain j where k: "k = Suc j" by (cases k) auto
    show ?thesis using True 2 k by simp
  next
    case False
    then show ?thesis by auto
  qed
qed

lemma fails_next_iff:
  "fails_next q = (take (Suc client_retries) (faults q) = replicate (Suc client_retries) True)"
  by (simp add: fails_next_def sends_fails_iff)

lemma consume_reachable:
  "faults q = [] \<Longrightarrow> \<not> fails_next q \<and> consume q = q\<lparr>issued := Suc (issued q)\<rparr>"
  by (simp add: fails_next_def consume_def)

lemma consume_first_ok:
  "faults q = False # bs \<Longrightarrow>
   \<not> fails_next q \<and> consume q = q\<lparr>issued := Suc (issued q), faults := bs\<rparr>"
  by (simp add: fails_next_def consume_def)

lemma faults_consume_reachable: "faults q = [] \<Longrightarrow> faults (consume q) = []"
  by (simp add: consume_def)

lemma issued_consume:
  "Suc (issued q) \<le> issued (consume q) \<and>
   issued (consume q) \<le> issued q + Suc client_retries"
  using sends_count [of client_retries "faults q"] by (simp add: consume_def)

lemma faults_consume:
  "faults (consume q) = drop (issued (consume q) - issued q) (faults q)"
  by (simp add: consume_def)

text \<open>A call that fails has met a failure; a call that met a failure need not fail.\<close>

lemma failed_call_met_failure: "fails_next q \<Longrightarrow> failure_met q (consume q)"
proof -
  assume f: "fails_next q"
  then obtain b bs where fs: "faults q = b # bs"
    by (cases "faults q") (auto simp: fails_next_def)
  have b: "b" using f fs by (auto simp: fails_next_def split: if_splits)
  have "1 \<le> snd (sends client_retries (faults q))" using sends_count by blast
  then obtain j where j: "snd (sends client_retries (faults q)) = Suc j"
    by (cases "snd (sends client_retries (faults q))") auto
  show ?thesis using fs b j by (simp add: failure_met_def consume_def)
qed

section \<open>The store's commands\<close>

lemma zrem_zrem: "zrem (zrem z m) m = zrem z m"
  by (simp add: zrem_def)

lemma zrem_absent: "m \<notin> fst ` set z \<Longrightarrow> zrem z m = z"
  unfolding zrem_def by (induction z) auto

lemma members_zrem: "fst ` set (zrem z m) = fst ` set z - {m}"
  unfolding zrem_def by (induction z) auto



lemma members_ZRem: "members (snd (ZRem q m)) \<subseteq> members q"
  by (auto simp: ZRem_def consume_def members_def zrem_def)

lemma ZRem_removed:
  "ZRem q m = (Inr removed, q') \<Longrightarrow> removed \<noteq> 0 \<Longrightarrow> m \<in> members q \<and> m \<notin> members q'"
  by (auto simp: ZRem_def consume_def members_def zrem_def zrem_count_def filter_empty_conv
      split: if_splits)

lemma issued_ZRem: "issued (snd (ZRem q m)) = issued (consume q)"
  by (simp add: ZRem_def consume_def)

lemma faults_ZRem: "faults (snd (ZRem q m)) = faults (consume q)"
  by (simp add: ZRem_def consume_def)

lemma zset_ZRem:
  "zset (snd (ZRem q m)) = (if fails_next q then zset q else zrem (zset q) m)"
  by (simp add: ZRem_def consume_def)

lemma members_scan: "members (snd (ZRangeByScoreWithScores q mx cnt)) = members q"
  by (simp add: ZRangeByScoreWithScores_def consume_def members_def)

lemma zset_consume: "zset (consume q) = zset q"
  by (simp add: consume_def)

lemma members_consume: "members (consume q) = members q"
  by (simp add: members_def consume_def)


lemma set_zinsert: "set (zinsert e z) = insert e (set z)"
  by (induction z) auto

lemma zadd_holds:
  "(m, s) \<in> set (zadd z m s) \<and> (\<forall>s'. (m, s') \<in> set (zadd z m s) \<longrightarrow> s' = s)"
  by (auto simp: zadd_def set_zinsert)

lemma members_Enqueue:
  "members (snd (Enqueue idstr q postID scheduledAt)) \<subseteq> insert (idstr postID) (members q)"
  by (auto simp: Enqueue_def ZAdd_def consume_def members_def zadd_def set_zinsert)

text \<open>
  In a queue whose members were all written by \<open>Enqueue\<close>, with a parser that reads
  back what the formatter writes, no two members denote the same id.
\<close>

lemma enqueued_members_denote_distinct_ids:
  assumes "\<forall>u. parse (idstr u) = Some u" and "members q \<subseteq> range idstr"
  shows "\<forall>m \<in> members q. \<forall>m' \<in> members q. parse m = parse m' \<longrightarrow> parse m = None \<or> m = m'"
proof (intro ballI impI)
  fix m m' assume "m \<in> members q" "m' \<in> members q" and eq: "parse m = parse m'"
  then obtain u u' where "m = idstr u" "m' = idstr u'" using assms(2) by blast
  then show "parse m = None \<or> m = m'" using assms(1) eq by auto
qed

section \<open>Removal from the queue\<close>

text \<open>
  Claim C9. \<open>Remove\<close> is idempotent. While the store is reachable, removing an id
  twice in succession returns no error either time and the second call leaves the queue
  as the first call left it; removing an id that is not in the queue returns no error
  and leaves the queue as it was.
\<close>

theorem Remove_idempotent:
  assumes "\<forall>b \<in> set (take 2 (faults q)). \<not> b"
  shows "fst (Remove idstr q postID) = None \<and>
         fst (Remove idstr (snd (Remove idstr q postID)) postID) = None \<and>
         zset (snd (Remove idstr (snd (Remove idstr q postID)) postID))
           = zset (snd (Remove idstr q postID)) \<and>
         (idstr postID \<notin> members q \<longrightarrow> zset (snd (Remove idstr q postID)) = zset q)"
proof -
  have h1: "faults q = [] \<or> \<not> hd (faults q)"
    using assms by (cases "faults q") auto
  have c1: "sends client_retries (faults q) = (False, 1)"
    by (rule sends_first_ok [OF h1])
  have f1: "\<not> fails_next q" by (simp add: fails_next_def c1)
  have rest: "faults (consume q) = drop 1 (faults q)" by (simp add: consume_def c1)
  have h2: "faults (consume q) = [] \<or> \<not> hd (faults (consume q))"
    using assms unfolding rest by (cases "faults q"; cases "tl (faults q)") auto
  have f2: "\<not> fails_next (consume q)"
    using sends_first_ok [OF h2] by (simp add: fails_next_def)
  have r1: "Remove idstr q postID = (None, (consume q)\<lparr>zset := zrem (zset q) (idstr postID)\<rparr>)"
    using f1 by (simp add: Remove_def ZRem_def)
  have f3: "\<not> fails_next ((consume q)\<lparr>zset := zrem (zset q) (idstr postID)\<rparr>)"
    using f2 by (simp add: fails_next_def)
  have z: "zset (consume q) = zset q" by (rule zset_consume)
  show ?thesis
    using f1 f3 by (simp add: r1 Remove_def ZRem_def zset_consume zrem_zrem zrem_absent members_def)
qed

theorem Remove_idempotent_witness:
  "take 2 (faults queue_one) = [] \<and>
   fst (Remove sample_idstr queue_one 1) = None \<and>
   fst (Remove sample_idstr (snd (Remove sample_idstr queue_one 1)) 1) = None \<and>
   zset (snd (Remove sample_idstr (snd (Remove sample_idstr queue_one 1)) 1)) = [] \<and>
   sample_idstr 2 \<notin> members queue_one \<and>
   zset (snd (Remove sample_idstr queue_one 2)) = zset queue_one"
proof -
  have h: "\<forall>b \<in> set (take 2 (faults queue_one)). \<not> b"
    by (simp add: queue_one_def)
  have absent: "sample_idstr 2 \<notin> members queue_one"
    by (simp add: queue_one_def members_def sample_idstr_def id_text_1_def id_text_2_def)
  have first: "zset (snd (Remove sample_idstr queue_one 1)) = []"
    by (simp add: Remove_def ZRem_def fails_next_def consume_def zrem_def queue_one_def
        sample_idstr_def)
  show ?thesis
    using Remove_idempotent [OF h, of sample_idstr 1] Remove_idempotent [OF h, of sample_idstr 2]
      absent first
    by (simp add: queue_one_def)
qed

section \<open>Claiming due posts\<close>


lemma claim_loop_members: "members (snd (claim_loop parse rs q acc)) \<subseteq> members q"
proof (induction rs arbitrary: q acc)
  case Nil
  then show ?case by simp
next
  case (Cons r rs)
  show ?case
  proof (cases "parse (fst r)")
    case None
    then show ?thesis using Cons by simp
  next
    case (Some pid)
    obtain res q' where zr: "ZRem q (fst r) = (res, q')" by (cases "ZRem q (fst r)")
    have sub: "members q' \<subseteq> members q" using members_ZRem [of q "fst r"] zr by simp
    show ?thesis
      using Some zr sub Cons.IH [of q']
      by (cases res) (auto split: if_splits)
  qed
qed

lemma claim_loop_issued:
  "issued (snd (claim_loop parse rs q acc)) \<le> issued q + length rs * Suc client_retries"
proof (induction rs arbitrary: q acc)
  case Nil
  then show ?case by simp
next
  case (Cons r rs)
  show ?case
  proof (cases "parse (fst r)")
    case None
    then show ?thesis using Cons [of q acc] by simp
  next
    case (Some pid)
    obtain res q' where zr: "ZRem q (fst r) = (res, q')" by (cases "ZRem q (fst r)")
    have iss: "issued q' \<le> issued q + Suc client_retries"
      using issued_ZRem [of q "fst r"] issued_consume [of q] zr by simp
    have "issued (snd (claim_loop parse rs q' a)) \<le> issued q + Suc (length rs) * Suc client_retries"
      for a
      using Cons.IH [of q' a] iss by simp
    then show ?thesis
      using Some zr by (cases res) (auto split: if_splits)
  qed
qed

text \<open>
  The loop, measured against the script: it returns, in order, the ids of the candidates
  whose removal call did not fail, and it takes exactly those members out of the queue.
  (The entries of a scan have different members, all of them in the queue.)
\<close>

lemma removed_by_skip:
  "parse (fst r) = None \<Longrightarrow> removed_by parse (r # rs) fs = removed_by parse rs fs"
  by (simp add: removed_by_def candidates_def)

lemma removed_by_try:
  "parse (fst r) = Some u \<Longrightarrow>
   removed_by parse (r # rs) fs
     = (if fst (sends client_retries fs) then [] else [r])
         @ removed_by parse rs (drop (snd (sends client_retries fs)) fs)"
  by (simp add: removed_by_def candidates_def)

lemma removed_by_subset: "set (removed_by parse rs fs) \<subseteq> set rs"
proof -
  have "set (removed_by parse rs fs) \<subseteq> set (candidates parse rs)"
    unfolding removed_by_def by (auto dest: set_zip_leftD)
  then show ?thesis by (auto simp: candidates_def)
qed

lemma zrem_count_present: "m \<in> fst ` set z \<Longrightarrow> zrem_count z m \<noteq> 0"
  by (auto simp: zrem_count_def filter_empty_conv)

lemma claim_loop_exact:
  assumes "distinct (map fst rs)" and "fst ` set rs \<subseteq> members q"
  shows "fst (claim_loop parse rs q acc)
           = acc @ List.map_filter (\<lambda>e. parse (fst e)) (removed_by parse rs (faults q)) \<and>
         zset (snd (claim_loop parse rs q acc))
           = filter (\<lambda>e. fst e \<notin> fst ` set (removed_by parse rs (faults q))) (zset q)"
  using assms
proof (induction rs arbitrary: q acc)
  case Nil
  then show ?case by (simp add: removed_by_def candidates_def List.map_filter_simps)
next
  case (Cons r rs)
  have dist: "distinct (map fst rs)" and fresh: "fst r \<notin> fst ` set rs"
    using Cons.prems(1) by auto
  have present: "fst r \<in> members q" and rest: "fst ` set rs \<subseteq> members q"
    using Cons.prems(2) by auto
  show ?case
  proof (cases "parse (fst r)")
    case None
    then show ?thesis
      using Cons.IH [OF dist rest, of acc] by (simp add: removed_by_skip)
  next
    case (Some u)
    let ?fs = "drop (snd (sends client_retries (faults q))) (faults q)"
    show ?thesis
    proof (cases "fails_next q")
      case True
      have zr: "ZRem q (fst r) = (Inl RedisError, consume q)"
        using True by (simp add: ZRem_def)
      have rest': "fst ` set rs \<subseteq> members (consume q)"
        using rest by (simp add: members_consume)
      have rb: "removed_by parse (r # rs) (faults q) = removed_by parse rs (faults (consume q))"
        using True Some removed_by_try [of parse r u rs "faults q"]
        by (simp add: fails_next_def consume_def)
      show ?thesis
        using Cons.IH [OF dist rest', of acc] Some zr
        by (simp add: rb zset_consume)
    next
      case False
      let ?q = "(consume q)\<lparr>zset := zrem (zset q) (fst r)\<rparr>"
      have cnt: "zrem_count (zset q) (fst r) \<noteq> 0"
        using present by (intro zrem_count_present) (simp add: members_def)
      have zr: "ZRem q (fst r) = (Inr (zrem_count (zset q) (fst r)), ?q)"
        using False by (simp add: ZRem_def)
      have rest': "fst ` set rs \<subseteq> members ?q"
        using rest fresh unfolding members_def by (simp add: members_zrem) blast
      have fq: "faults ?q = ?fs" by (simp add: consume_def)
      have rb: "removed_by parse (r # rs) (faults q) = r # removed_by parse rs (faults ?q)"
        using False Some removed_by_try [of parse r u rs "faults q"]
        by (simp add: fails_next_def fq)
      have ids: "fst (claim_loop parse (r # rs) q acc)
                   = acc @ List.map_filter (\<lambda>e. parse (fst e)) (removed_by parse (r # rs) (faults q))"
        using Cons.IH [OF dist rest', of "acc @ [u]"] Some zr cnt
        by (simp add: rb List.map_filter_simps)
      have zs: "zset (snd (claim_loop parse (r # rs) q acc))
                  = filter (\<lambda>e. fst e \<notin> fst ` set (removed_by parse (r # rs) (faults q))) (zset q)"
        using Cons.IH [OF dist rest', of "acc @ [u]"] Some zr cnt
        by (simp add: rb zrem_def)
      show ?thesis using ids zs by blast
    qed
  qed
qed

lemma distinct_members_scanned:
  "distinct (map fst (zset q)) \<Longrightarrow> distinct (map fst (scanned q now maxCount))"
  by (auto simp: scanned_def zrangebyscore_def Let_def take_map [symmetric]
      intro: distinct_take distinct_map_filter)

lemma scanned_in_queue: "set (scanned q now maxCount) \<subseteq> set (zset q)"
  by (auto simp: scanned_def zrangebyscore_def Let_def dest: in_set_takeD)

text \<open>
  Every id the loop adds is the reading of a member, other than a given unparsable one,
  that was in the queue before and is gone after.
\<close>

lemma claim_loop_ids:
  "pid \<in> set (fst (claim_loop parse rs q acc)) \<Longrightarrow> pid \<notin> set acc \<Longrightarrow>
   \<exists>m. parse m = Some pid \<and> m \<in> members q \<and> m \<notin> members (snd (claim_loop parse rs q acc))"
proof (induction rs arbitrary: q acc)
  case Nil
  then show ?case by simp
next
  case (Cons r rs)
  show ?case
  proof (cases "parse (fst r)")
    case None
    then show ?thesis using Cons by simp
  next
    case (Some u)
    obtain res q' where zr: "ZRem q (fst r) = (res, q')" by (cases "ZRem q (fst r)")
    have sub: "members q' \<subseteq> members q" using members_ZRem [of q "fst r"] zr by simp
    have fin: "\<And>a. members (snd (claim_loop parse rs q' a)) \<subseteq> members q'"
      by (rule claim_loop_members)
    show ?thesis
    proof (cases "\<exists>removed. res = Inr removed \<and> removed \<noteq> 0")
      case False
      then have eq: "claim_loop parse (r # rs) q acc = claim_loop parse rs q' acc"
        using Some zr by (cases res) auto
      obtain m where "parse m = Some pid" "m \<in> members q'"
          "m \<notin> members (snd (claim_loop parse rs q' acc))"
        using Cons.IH [of q' acc] Cons.prems eq by auto
      then show ?thesis using sub eq by auto
    next
      case True
      then obtain removed where res: "res = Inr removed" "removed \<noteq> 0" by blast
      have eq: "claim_loop parse (r # rs) q acc = claim_loop parse rs q' (acc @ [u])"
        using Some zr res by simp
      have gone: "fst r \<in> members q" "fst r \<notin> members q'"
        using ZRem_removed zr res by blast+
      show ?thesis
      proof (cases "pid = u")
        case True
        then show ?thesis using gone Some fin [of "acc @ [u]"] eq by auto
      next
        case False
        then obtain m where "parse m = Some pid" "m \<in> members q'"
            "m \<notin> members (snd (claim_loop parse rs q' (acc @ [u])))"
          using Cons.IH [of q' "acc @ [u]"] Cons.prems eq by auto
        then show ?thesis using sub eq by auto
      qed
    qed
  qed
qed

lemma GetDuePosts_scan_fails:
  "fails_next q \<Longrightarrow> GetDuePosts parse q now maxCount = (Inl RedisError, consume q)"
  by (simp add: GetDuePosts_def ZRangeByScoreWithScores_def)

lemma GetDuePosts_scan_ok:
  "\<not> fails_next q \<Longrightarrow>
   GetDuePosts parse q now maxCount =
     (Inr (fst (claim_loop parse (zrangebyscore (zset q) (Unix now) maxCount) (consume q) [])),
      snd (claim_loop parse (zrangebyscore (zset q) (Unix now) maxCount) (consume q) []))"
  by (simp add: GetDuePosts_def ZRangeByScoreWithScores_def split: prod.splits)

lemma GetDuePosts_error_iff:
  "(fst (GetDuePosts parse q now maxCount) = Inl RedisError) = fails_next q"
  by (cases "fails_next q") (simp_all add: GetDuePosts_scan_fails GetDuePosts_scan_ok)


lemma GetDuePosts_ids:
  assumes "fst (GetDuePosts parse q now maxCount) = Inr ids" and "pid \<in> set ids"
  shows "\<exists>m. parse m = Some pid \<and> m \<in> members q \<and>
             m \<notin> members (snd (GetDuePosts parse q now maxCount))"
proof (cases "fails_next q")
  case True
  then show ?thesis using assms by (simp add: GetDuePosts_scan_fails)
next
  case False
  then show ?thesis
    using assms
      claim_loop_ids [of pid parse "zrangebyscore (zset q) (Unix now) maxCount" "consume q" "[]"]
    by (auto simp: GetDuePosts_scan_ok members_consume)
qed





lemma GetDuePosts_visits_scanned:
  "\<not> fails_next q \<Longrightarrow>
   GetDuePosts parse q now maxCount =
     (Inr (fst (claim_loop parse (scanned q now maxCount) (consume q) [])),
      snd (claim_loop parse (scanned q now maxCount) (consume q) []))"
  by (simp add: GetDuePosts_scan_ok scanned_def)




section \<open>Store failures seen through the queue\<close>

text \<open>
  Claim C4, as stated, fails: in \<open>GetDuePosts\<close> a connectivity failure met by the
  removal of a scanned member is not reported. Here the scan succeeds, the removal fails
  on its send and on every re-send of the client, and the call returns an empty list and
  no error, with the member still in the queue.
\<close>

theorem GetDuePosts_swallows_removal_failure:
  "failure_met queue_removal_fails
     (snd (GetDuePosts sample_parse queue_removal_fails 1000000000 100)) \<and>
   fst (GetDuePosts sample_parse queue_removal_fails 1000000000 100) = Inr [] \<and>
   zset (snd (GetDuePosts sample_parse queue_removal_fails 1000000000 100))
     = zset queue_removal_fails"
proof -
  have run: "GetDuePosts sample_parse queue_removal_fails 1000000000 100
               = (Inr [], \<lparr>zset = [(id_text_1, 0)], issued = 5, faults = []\<rparr>)"
    by (simp add: GetDuePosts_def ZRangeByScoreWithScores_def ZRem_def fails_next_def consume_def
        client_retries_def zrangebyscore_def Unix_def queue_removal_fails_def sample_parse_def)
  have script: "faults queue_removal_fails = [False, True, True, True, True]"
      and count: "issued queue_removal_fails = 0"
      and data: "zset queue_removal_fails = [(id_text_1, 0)]"
    by (simp_all add: queue_removal_fails_def)
  show ?thesis
    unfolding run failure_met_def by (simp add: script count data)
qed

lemma GetDuePosts_exact:
  assumes "\<not> fails_next q" and "distinct (map fst (zset q))"
  shows "fst (GetDuePosts parse q now maxCount)
           = Inr (List.map_filter (\<lambda>e. parse (fst e))
                    (removed_by parse (scanned q now maxCount) (faults (consume q)))) \<and>
         zset (snd (GetDuePosts parse q now maxCount))
           = filter (\<lambda>e. fst e \<notin> fst ` set (removed_by parse (scanned q now maxCount)
                                                  (faults (consume q))))
               (zset q)"
proof -
  have d: "distinct (map fst (scanned q now maxCount))"
    by (rule distinct_members_scanned [OF assms(2)])
  have m: "fst ` set (scanned q now maxCount) \<subseteq> members (consume q)"
    using scanned_in_queue [of q now maxCount] by (auto simp: members_def zset_consume)
  show ?thesis
    using claim_loop_exact [OF d m, of parse "[]"] assms(1)
    by (simp add: GetDuePosts_visits_scanned zset_consume)
qed

lemma GetDuePosts_issued:
  "issued (snd (GetDuePosts parse q now maxCount))
     \<le> issued q + Suc (length (scanned q now maxCount)) * Suc client_retries"
proof (cases "fails_next q")
  case True
  then show ?thesis using issued_consume [of q] by (simp add: GetDuePosts_scan_fails)
next
  case False
  then show ?thesis
    using claim_loop_issued [of parse "scanned q now maxCount" "consume q" "[]"]
      issued_consume [of q]
    by (simp add: GetDuePosts_visits_scanned)
qed

text \<open>
  Claim C4, amended. Every operation of the queue makes one call of the client per
  command: one call in \<open>Enqueue\<close>, \<open>Remove\<close> and \<open>GetQueueLength\<close>, the scan and at
  most one removal per scanned entry in \<open>GetDuePosts\<close>. The client sends the command
  and re-sends it after a connectivity failure, up to 3 times; the call fails exactly
  when the send and the 3 re-sends all fail. The queue adds no retry of its own:
  \<open>Enqueue\<close>, \<open>Remove\<close> and \<open>GetQueueLength\<close> return an error exactly when their
  call fails, \<open>GetDuePosts\<close> exactly when its scan fails. A removal call that fails
  inside \<open>GetDuePosts\<close> is passed over in silence: its id is left out of the result
  and its member stays in the queue. On a queue of distinct members, the ids returned
  are exactly those of the scanned entries whose member parses and whose removal call
  did not fail, and exactly these entries leave the queue; every id returned is the
  reading of a member that the call removed.
\<close>

theorem queue_reports_failed_calls:
  "fails_next q = (take (Suc client_retries) (faults q) = replicate (Suc client_retries) True) \<and>
   Suc (issued q) \<le> issued (consume q) \<and> issued (consume q) \<le> issued q + Suc client_retries \<and>
   Enqueue idstr q postID scheduledAt
     = (if fails_next q then (Some RedisError, consume q)
        else (None, (consume q)\<lparr>zset := zadd (zset q) (idstr postID) (Unix scheduledAt)\<rparr>)) \<and>
   Remove idstr q postID
     = (if fails_next q then (Some RedisError, consume q)
        else (None, (consume q)\<lparr>zset := zrem (zset q) (idstr postID)\<rparr>)) \<and>
   GetQueueLength q
     = (if fails_next q then (Inl RedisError, consume q) else (Inr (zcard (zset q)), consume q)) \<and>
   (fst (Enqueue idstr q postID scheduledAt) \<noteq> None) = fails_next q \<and>
   (fst (Remove idstr q postID) \<noteq> None) = fails_next q \<and>
   (fst (GetQueueLength q) = Inl RedisError) = fails_next q \<and>
   (fst (GetDuePosts parse q now maxCount) = Inl RedisError) = fails_next q \<and>
   (fails_next q \<longrightarrow> GetDuePosts parse q now maxCount = (Inl RedisError, consume q) \<and>
      failure_met q (consume q)) \<and>
   issued (snd (GetDuePosts parse q now maxCount))
      \<le> issued q + Suc (length (scanned q now maxCount)) * Suc client_retries \<and>
   (\<forall>ids. fst (GetDuePosts parse q now maxCount) = Inr ids \<longrightarrow>
      (\<forall>pid \<in> set ids. \<exists>m. parse m = Some pid \<and> m \<in> members q \<and>
          m \<notin> members (snd (GetDuePosts parse q now maxCount)))) \<and>
   (\<not> fails_next q \<and> distinct (map fst (zset q)) \<longrightarrow>
      fst (GetDuePosts parse q now maxCount)
        = Inr (List.map_filter (\<lambda>e. parse (fst e))
                 (removed_by parse (scanned q now maxCount) (faults (consume q)))) \<and>
      zset (snd (GetDuePosts parse q now maxCount))
        = filter (\<lambda>e. fst e \<notin> fst ` set (removed_by parse (scanned q now maxCount)
                                               (faults (consume q))))
            (zset q))"
proof -
  have enq: "Enqueue idstr q postID scheduledAt
     = (if fails_next q then (Some RedisError, consume q)
        else (None, (consume q)\<lparr>zset := zadd (zset q) (idstr postID) (Unix scheduledAt)\<rparr>))"
    by (simp add: Enqueue_def ZAdd_def)
  have rem: "Remove idstr q postID
     = (if fails_next q then (Some RedisError, consume q)
        else (None, (consume q)\<lparr>zset := zrem (zset q) (idstr postID)\<rparr>))"
    by (simp add: Remove_def ZRem_def)
  have len: "GetQueueLength q
     = (if fails_next q then (Inl RedisError, consume q) else (Inr (zcard (zset q)), consume q))"
    by (simp add: GetQueueLength_def ZCard_def)
  have enq_err: "(fst (Enqueue idstr q postID scheduledAt) \<noteq> None) = fails_next q"
    by (simp add: enq)
  have rem_err: "(fst (Remove idstr q postID) \<noteq> None) = fails_next q"
    by (simp add: rem)
  have len_err: "(fst (GetQueueLength q) = Inl RedisError) = fails_next q"
    by (simp add: len)
  have due_err: "(fst (GetDuePosts parse q now maxCount) = Inl RedisError) = fails_next q"
    by (rule GetDuePosts_error_iff)
  have due_fail: "fails_next q \<longrightarrow> GetDuePosts parse q now maxCount = (Inl RedisError, consume q) \<and>
      failure_met q (consume q)"
    by (simp add: GetDuePosts_scan_fails failed_call_met_failure)
  have ids: "\<forall>ids. fst (GetDuePosts parse q now maxCount) = Inr ids \<longrightarrow>
      (\<forall>pid \<in> set ids. \<exists>m. parse m = Some pid \<and> m \<in> members q \<and>
          m \<notin> members (snd (GetDuePosts parse q now maxCount)))"
    using GetDuePosts_ids [of parse q now maxCount] by blast
  have exact: "\<not> fails_next q \<and> distinct (map fst (zset q)) \<longrightarrow>
      fst (GetDuePosts parse q now maxCount)
        = Inr (List.map_filter (\<lambda>e. parse (fst e))
                 (removed_by parse (scanned q now maxCount) (faults (consume q)))) \<and>
      zset (snd (GetDuePosts parse q now maxCount))
        = filter (\<lambda>e. fst e \<notin> fst ` set (removed_by parse (scanned q now maxCount)
                                               (faults (consume q))))
            (zset q)"
    using GetDuePosts_exact [of q parse now maxCount] by blast
  show ?thesis
    using fails_next_iff [of q] issued_consume [of q] enq rem len enq_err rem_err len_err
      due_err due_fail GetDuePosts_issued [of parse q now maxCount] ids exact
    by blast
qed

theorem queue_reports_failed_calls_witness:
  "\<not> fails_next queue_second_removal_fails \<and>
   distinct (map fst (zset queue_second_removal_fails)) \<and>
   zset queue_second_removal_fails = [(id_text_1, 0), (id_text_2, 0)] \<and>
   faults queue_second_removal_fails = [False, False, True, True, True, True] \<and>
   scanned queue_second_removal_fails 1000000000 100 = [(id_text_1, 0), (id_text_2, 0)] \<and>
   removed_by sample_parse (scanned queue_second_removal_fails 1000000000 100)
       (faults (consume queue_second_removal_fails)) = [(id_text_1, 0)] \<and>
   fst (GetDuePosts sample_parse queue_second_removal_fails 1000000000 100) = Inr [1] \<and>
   zset (snd (GetDuePosts sample_parse queue_second_removal_fails 1000000000 100))
     = [(id_text_2, 0)] \<and>
   issued (snd (GetDuePosts sample_parse queue_second_removal_fails 1000000000 100)) \<le> 12 \<and>
   \<not> fails_next queue_transient_failure \<and>
   fst (Enqueue sample_idstr queue_transient_failure 2 0) = None \<and>
   snd (Enqueue sample_idstr queue_transient_failure 2 0)
     = \<lparr>zset = [(id_text_2, 0)], issued = 2, faults = []\<rparr> \<and>
   failure_met queue_transient_failure (snd (Enqueue sample_idstr queue_transient_failure 2 0)) \<and>
   fails_next queue_unreachable \<and>
   fst (Enqueue sample_idstr queue_unreachable 2 0) = Some RedisError \<and>
   fst (Remove sample_idstr queue_unreachable 1) = Some RedisError \<and>
   fst (GetQueueLength queue_unreachable) = Inl RedisError \<and>
   GetDuePosts sample_parse queue_unreachable 1000000000 100
     = (Inl RedisError, \<lparr>zset = [(id_text_1, 0)], issued = 4, faults = []\<rparr>)"
proof -
  have up: "\<not> fails_next queue_second_removal_fails"
    by (simp add: fails_next_def queue_second_removal_fails_def client_retries_def)
  have data: "zset queue_second_removal_fails = [(id_text_1, 0), (id_text_2, 0)]"
      and script: "faults queue_second_removal_fails = [False, False, True, True, True, True]"
    by (simp_all add: queue_second_removal_fails_def)
  have dist: "distinct (map fst (zset queue_second_removal_fails))"
    by (simp add: data id_text_1_def id_text_2_def)
  have sc: "scanned queue_second_removal_fails 1000000000 100 = [(id_text_1, 0), (id_text_2, 0)]"
    by (simp add: scanned_def zrangebyscore_def data Unix_def)
  have after_scan: "faults (consume queue_second_removal_fails) = [False, True, True, True, True]"
    by (simp add: consume_def script)
  have cand: "candidates sample_parse [(id_text_1, 0), (id_text_2, 0)]
                = [(id_text_1, 0), (id_text_2, 0)]"
    by (simp add: candidates_def sample_parse_def)
  have outcomes: "call_outcomes (Suc (Suc 0)) [False, True, True, True, True] = [False, True]"
    by (simp add: client_retries_def)
  have rb: "removed_by sample_parse (scanned queue_second_removal_fails 1000000000 100)
              (faults (consume queue_second_removal_fails)) = [(id_text_1, 0)]"
    unfolding sc after_scan by (simp add: removed_by_def cand outcomes client_retries_def)
  have len: "length (scanned queue_second_removal_fails 1000000000 100) = Suc (Suc 0)"
    unfolding sc by simp
  note inst = queue_reports_failed_calls
      [of queue_second_removal_fails sample_idstr 2 0 sample_parse 1000000000 100]
  have da: "fst (GetDuePosts sample_parse queue_second_removal_fails 1000000000 100)
       = Inr (List.map_filter (\<lambda>e. sample_parse (fst e))
           (removed_by sample_parse (scanned queue_second_removal_fails 1000000000 100)
              (faults (consume queue_second_removal_fails))))"
    using inst up dist by blast
  have db: "zset (snd (GetDuePosts sample_parse queue_second_removal_fails 1000000000 100))
       = filter (\<lambda>e. fst e \<notin> fst ` set
           (removed_by sample_parse (scanned queue_second_removal_fails 1000000000 100)
              (faults (consume queue_second_removal_fails))))
           (zset queue_second_removal_fails)"
    using inst up dist by blast
  have dc: "issued (snd (GetDuePosts sample_parse queue_second_removal_fails 1000000000 100))
       \<le> issued queue_second_removal_fails
           + Suc (length (scanned queue_second_removal_fails 1000000000 100)) * Suc client_retries"
    using inst by blast
  have upt: "\<not> fails_next queue_transient_failure"
    by (simp add: fails_next_def queue_transient_failure_def client_retries_def)
  have ct: "consume queue_transient_failure = \<lparr>zset = [], issued = 2, faults = []\<rparr>"
    by (simp add: consume_def queue_transient_failure_def client_retries_def)
  have enq: "Enqueue sample_idstr queue_transient_failure 2 0
               = (None, \<lparr>zset = [(id_text_2, 0)], issued = 2, faults = []\<rparr>)"
    using queue_reports_failed_calls
        [of queue_transient_failure sample_idstr 2 0 sample_parse 1000000000 100] upt
    unfolding ct by (simp add: queue_transient_failure_def zadd_def sample_idstr_def Unix_def)
  have met: "failure_met queue_transient_failure \<lparr>zset = [(id_text_2, 0)], issued = 2, faults = []\<rparr>"
    by (simp add: failure_met_def queue_transient_failure_def)
  have r1: "fst (GetDuePosts sample_parse queue_second_removal_fails 1000000000 100) = Inr [1]"
    unfolding da rb by (simp add: List.map_filter_simps sample_parse_def)
  have r2: "zset (snd (GetDuePosts sample_parse queue_second_removal_fails 1000000000 100))
              = [(id_text_2, 0)]"
    unfolding db rb by (simp add: data id_text_1_def id_text_2_def)
  have r3: "issued (snd (GetDuePosts sample_parse queue_second_removal_fails 1000000000 100)) \<le> 12"
    using dc unfolding len by (simp add: queue_second_removal_fails_def client_retries_def)
  have down: "fails_next queue_unreachable"
    by (simp add: fails_next_def queue_unreachable_def client_retries_def)
  have cu: "consume queue_unreachable = \<lparr>zset = [(id_text_1, 0)], issued = 4, faults = []\<rparr>"
    by (simp add: consume_def queue_unreachable_def client_retries_def)
  note gone = queue_reports_failed_calls
      [of queue_unreachable sample_idstr 2 0 sample_parse 1000000000 100]
  note gone_rem = queue_reports_failed_calls
      [of queue_unreachable sample_idstr 1 0 sample_parse 1000000000 100]
  have ua: "fst (Enqueue sample_idstr queue_unreachable 2 0) = Some RedisError"
    using gone down by simp
  have ub: "fst (Remove sample_idstr queue_unreachable 1) = Some RedisError"
    using gone_rem down by simp
  have uc: "fst (GetQueueLength queue_unreachable) = Inl RedisError"
    using gone down by blast
  have ud: "GetDuePosts sample_parse queue_unreachable 1000000000 100
     = (Inl RedisError, \<lparr>zset = [(id_text_1, 0)], issued = 4, faults = []\<rparr>)"
    using gone down unfolding cu by blast
  show ?thesis
    unfolding enq ud using up dist data script sc rb r1 r2 r3 upt met down ua ub uc by simp
qed

section \<open>Racing callers\<close>

lemma claim_inv_members: "claim_inv parse M q cs \<Longrightarrow> members q \<subseteq> M"
  by (simp add: claim_inv_def)

lemma claim_inv_distinct:
  "claim_inv parse M q cs \<Longrightarrow> k < length cs \<Longrightarrow> distinct (collected (cs ! k))"
  by (simp add: claim_inv_def)

lemma claim_inv_source:
  "claim_inv parse M q cs \<Longrightarrow> k < length cs \<Longrightarrow> u \<in> set (collected (cs ! k)) \<Longrightarrow>
   \<exists>m \<in> M. parse m = Some u \<and> m \<notin> members q"
  by (simp add: claim_inv_def)

lemma claim_inv_disjoint:
  "claim_inv parse M q cs \<Longrightarrow> k < length cs \<Longrightarrow> l < length cs \<Longrightarrow> k \<noteq> l \<Longrightarrow>
   set (collected (cs ! k)) \<inter> set (collected (cs ! l)) = {}"
  by (simp add: claim_inv_def)

lemma claim_invI:
  assumes "members q \<subseteq> M"
      and "\<And>k. k < length cs \<Longrightarrow> distinct (collected (cs ! k))"
      and "\<And>k u. k < length cs \<Longrightarrow> u \<in> set (collected (cs ! k)) \<Longrightarrow>
             \<exists>m \<in> M. parse m = Some u \<and> m \<notin> members q"
      and "\<And>k l. k < length cs \<Longrightarrow> l < length cs \<Longrightarrow> k \<noteq> l \<Longrightarrow>
             set (collected (cs ! k)) \<inter> set (collected (cs ! l)) = {}"
  shows "claim_inv parse M q cs"
  unfolding claim_inv_def using assms by blast

text \<open>A step that keeps every caller's collection and does not grow the set.\<close>

lemma claim_inv_same:
  assumes inv: "claim_inv parse M q cs" and i: "i < length cs"
      and sub: "members q' \<subseteq> members q" and same: "collected c' = collected (cs ! i)"
  shows "claim_inv parse M q' (cs[i := c'])"
proof (rule claim_invI)
  show "members q' \<subseteq> M" using claim_inv_members [OF inv] sub by blast
next
  fix k assume k: "k < length (cs[i := c'])"
  then have eq: "collected (cs[i := c'] ! k) = collected (cs ! k)"
    using same by (cases "k = i") simp_all
  show "distinct (collected (cs[i := c'] ! k))"
    using claim_inv_distinct [OF inv, of k] k eq by simp
next
  fix k u assume k: "k < length (cs[i := c'])" and u: "u \<in> set (collected (cs[i := c'] ! k))"
  then have eq: "collected (cs[i := c'] ! k) = collected (cs ! k)"
    using same by (cases "k = i") simp_all
  obtain m where "m \<in> M" "parse m = Some u" "m \<notin> members q"
    using claim_inv_source [OF inv, of k u] k u eq by auto
  then show "\<exists>m \<in> M. parse m = Some u \<and> m \<notin> members q'" using sub by blast
next
  fix k l assume k: "k < length (cs[i := c'])" and l: "l < length (cs[i := c'])" and kl: "k \<noteq> l"
  have eqk: "collected (cs[i := c'] ! k) = collected (cs ! k)"
    using same k by (cases "k = i") simp_all
  have eql: "collected (cs[i := c'] ! l) = collected (cs ! l)"
    using same l by (cases "l = i") simp_all
  show "set (collected (cs[i := c'] ! k)) \<inter> set (collected (cs[i := c'] ! l)) = {}"
    using claim_inv_disjoint [OF inv, of k l] k l kl by (simp add: eqk eql)
qed

lemma claim_inv_take:
  assumes inv: "claim_inv parse M q cs" and i: "i < length cs"
      and inj: "\<forall>m \<in> M. \<forall>m' \<in> M. parse m = parse m' \<longrightarrow> parse m = None \<or> m = m'"
      and p: "parse m = Some u"
      and gone: "m \<in> members q" "m \<notin> members q'"
      and sub: "members q' \<subseteq> members q"
      and c': "collected c' = collected (cs ! i) @ [u]"
  shows "claim_inv parse M q' (cs[i := c'])"
proof (rule claim_invI)
  have mM: "m \<in> M" using claim_inv_members [OF inv] gone(1) by blast
  have fresh: "u \<notin> set (collected (cs ! k))" if k: "k < length cs" for k
  proof
    assume "u \<in> set (collected (cs ! k))"
    then obtain m' where m': "m' \<in> M" "parse m' = Some u" "m' \<notin> members q"
      using claim_inv_source [OF inv k] by blast
    then have "m' = m" using inj mM p by fastforce
    then show False using m'(3) gone(1) by simp
  qed
  have col: "collected (cs[i := c'] ! k) = (if k = i then collected (cs ! i) @ [u] else collected (cs ! k))"
    if "k < length cs" for k
    using that c' by simp
  show "members q' \<subseteq> M" using claim_inv_members [OF inv] sub by blast
  show "distinct (collected (cs[i := c'] ! k))" if k: "k < length (cs[i := c'])" for k
    using k claim_inv_distinct [OF inv, of k] fresh [of k] by (auto simp: col)
  show "\<exists>m \<in> M. parse m = Some w \<and> m \<notin> members q'"
    if k: "k < length (cs[i := c'])" and w: "w \<in> set (collected (cs[i := c'] ! k))" for k w
  proof (cases "w \<in> set (collected (cs ! k))")
    case True
    then obtain m0 where "m0 \<in> M" "parse m0 = Some w" "m0 \<notin> members q"
      using claim_inv_source [OF inv, of k w] k by auto
    then show ?thesis using sub by blast
  next
    case False
    then have "w = u" using w k by (simp add: col split: if_splits)
    then show ?thesis using mM p gone(2) by blast
  qed
  show "set (collected (cs[i := c'] ! k)) \<inter> set (collected (cs[i := c'] ! l)) = {}"
    if k: "k < length (cs[i := c'])" and l: "l < length (cs[i := c'])" and kl: "k \<noteq> l" for k l
    using claim_inv_disjoint [OF inv, of k l] fresh [of k] fresh [of l] k l kl
    by (auto simp: col)
qed

lemma caller_step_inv:
  assumes inv: "claim_inv parse M q cs" and i: "i < length cs"
      and inj: "\<forall>m \<in> M. \<forall>m' \<in> M. parse m = parse m' \<longrightarrow> parse m = None \<or> m = m'"
      and st: "caller_step parse q (cs ! i) = (q', c')"
  shows "claim_inv parse M q' (cs[i := c'])"
proof (cases "cs ! i")
  case (Calling now maxCount)
  have "members q' \<subseteq> members q \<and> collected c' = []"
    using st Calling members_scan [of q "Unix now" maxCount]
    by (auto split: prod.splits sum.splits)
  then show ?thesis using claim_inv_same [OF inv i] Calling by simp
next
  case (Looping results postIDs)
  show ?thesis
  proof (cases results)
    case Nil
    then show ?thesis using st Looping claim_inv_same [OF inv i, of q c'] by auto
  next
    case (Cons r rs)
    show ?thesis
    proof (cases "parse (fst r)")
      case None
      then show ?thesis using st Looping Cons claim_inv_same [OF inv i, of q c'] by auto
    next
      case (Some u)
      obtain res q1 where zr: "ZRem q (fst r) = (res, q1)" by (cases "ZRem q (fst r)")
      have sub: "members q1 \<subseteq> members q" using members_ZRem [of q "fst r"] zr by simp
      show ?thesis
      proof (cases res)
        case (Inl e)
        then show ?thesis
          using st Looping Cons Some zr sub claim_inv_same [OF inv i, of q1 c'] by auto
      next
        case (Inr removed)
        show ?thesis
        proof (cases "removed = 0")
          case True
          then show ?thesis
            using st Looping Cons Some zr Inr sub claim_inv_same [OF inv i, of q1 c'] by auto
        next
          case False
          have gone: "fst r \<in> members q" "fst r \<notin> members q1"
            using ZRem_removed zr Inr False by blast+
          have eq: "q' = q1" "c' = Looping rs (postIDs @ [u])"
            using st Looping Cons Some zr Inr False by auto
          show ?thesis
            unfolding eq
            by (rule claim_inv_take [OF inv i inj Some gone sub]) (simp add: Looping)
        qed
      qed
    qed
  qed
next
  case (Returned postIDs)
  then show ?thesis using st claim_inv_same [OF inv i, of q c'] by auto
next
  case (ReturnedError e)
  then show ?thesis using st claim_inv_same [OF inv i, of q c'] by auto
qed

lemma interleave_inv:
  assumes inj: "\<forall>m \<in> M. \<forall>m' \<in> M. parse m = parse m' \<longrightarrow> parse m = None \<or> m = m'"
  shows "claim_inv parse M q cs \<Longrightarrow> interleave parse sched (q, cs) = (q', cs') \<Longrightarrow>
         claim_inv parse M q' cs'"
proof (induction sched arbitrary: q cs)
  case Nil
  then show ?case by simp
next
  case (Cons i sched)
  show ?case
  proof (cases "i < length cs")
    case True
    obtain q1 c1 where st: "caller_step parse q (cs ! i) = (q1, c1)"
      by (cases "caller_step parse q (cs ! i)")
    have "claim_inv parse M q1 (cs[i := c1])"
      by (rule caller_step_inv [OF Cons.prems(1) True inj st])
    then show ?thesis using Cons.IH [of q1 "cs[i := c1]"] Cons.prems(2) True st by simp
  next
    case False
    then show ?thesis using Cons by simp
  qed
qed

lemma interleave_length: "interleave parse sched (q, cs) = (q', cs') \<Longrightarrow> length cs' = length cs"
proof (induction sched arbitrary: q cs)
  case Nil
  then show ?case by simp
next
  case (Cons i sched)
  then show ?case by (auto split: if_splits prod.splits)
qed

lemma claim_inv_start:
  assumes "\<forall>c \<in> set cs. not_started c"
  shows "claim_inv parse (members q) q cs"
proof -
  have "collected (cs ! i) = []" if "i < length cs" for i
  proof -
    have "not_started (cs ! i)" using assms that by simp
    then show ?thesis by (cases "cs ! i") simp_all
  qed
  then show ?thesis unfolding claim_inv_def by simp
qed

text \<open>
  Claim C3. At most one claim. Any number of callers of \<open>GetDuePosts\<close> start against
  the same queue, in which no two members denote the same id (as in a queue that
  \<open>Enqueue\<close> filled), and their commands interleave in any order, failures included.
  At every moment each id a caller has collected, so each id it returns, is the reading
  of a member of the queue they started with, and no id is held by two callers.
\<close>

theorem at_most_one_claim:
  assumes inj: "\<forall>m \<in> members q. \<forall>m' \<in> members q.
                  parse m = parse m' \<longrightarrow> parse m = None \<or> m = m'"
      and start: "\<forall>c \<in> set cs. not_started c"
      and run: "interleave parse sched (q, cs) = (q', cs')"
  shows "length cs' = length cs \<and>
         (\<forall>i < length cs'. \<forall>u \<in> set (collected (cs' ! i)).
            \<exists>m \<in> members q. parse m = Some u) \<and>
         (\<forall>i < length cs'. \<forall>j < length cs'. i \<noteq> j \<longrightarrow>
            set (collected (cs' ! i)) \<inter> set (collected (cs' ! j)) = {})"
proof -
  have "claim_inv parse (members q) q' cs'"
    by (rule interleave_inv [OF inj claim_inv_start [OF start] run])
  then show ?thesis
    using claim_inv_source [of parse "members q" q' cs']
      claim_inv_disjoint [of parse "members q" q' cs'] interleave_length [OF run]
    by blast
qed

theorem at_most_one_claim_witness:
  "members queue_two = {id_text_1, id_text_2} \<and>
   sample_parse id_text_1 = Some 1 \<and> sample_parse id_text_2 = Some 2 \<and>
   interleave sample_parse [0, 1, 0, 1, 1, 0, 0, 1] (queue_two, two_callers)
     = (\<lparr>zset = [], issued = 6, faults = []\<rparr>, [Returned [1], Returned [2]]) \<and>
   set (collected ([Returned [1], Returned [2 :: uuid]] ! 0))
     \<inter> set (collected ([Returned [1], Returned [2 :: uuid]] ! 1)) = {}"
proof -
  have inj: "\<forall>m \<in> members queue_two. \<forall>m' \<in> members queue_two.
      sample_parse m = sample_parse m' \<longrightarrow> sample_parse m = None \<or> m = m'"
    by (simp add: members_def queue_two_def sample_parse_def id_text_1_def id_text_2_def)
  have start: "\<forall>c \<in> set two_callers. not_started c"
    by (simp add: two_callers_def)
  have run: "interleave sample_parse [0, 1, 0, 1, 1, 0, 0, 1] (queue_two, two_callers)
     = (\<lparr>zset = [], issued = 6, faults = []\<rparr>, [Returned [1], Returned [2]])"
    by (simp add: queue_two_def two_callers_def ZRangeByScoreWithScores_def ZRem_def
        fails_next_def consume_def zrangebyscore_def zrem_def zrem_count_def Unix_def
        sample_parse_def id_text_1_def id_text_2_def)
  have data: "members queue_two = {id_text_1, id_text_2} \<and>
      sample_parse id_text_1 = Some 1 \<and> sample_parse id_text_2 = Some 2"
    by (simp add: members_def queue_two_def sample_parse_def id_text_1_def id_text_2_def)
  show ?thesis
    using at_most_one_claim [OF inj start run] data run by simp
qed

text \<open>
  A caller that runs alone goes through exactly the commands of \<open>GetDuePosts\<close> and
  returns what \<open>GetDuePosts\<close> returns.
\<close>

lemma lone_caller_loop:
  "interleave parse (replicate (Suc (length rs)) 0) (q, [Looping rs acc])
     = (snd (claim_loop parse rs q acc), [Returned (fst (claim_loop parse rs q acc))])"
proof (induction rs arbitrary: q acc)
  case Nil
  then show ?case by simp
next
  case (Cons r rs)
  show ?case
  proof (cases "parse (fst r)")
    case None
    then show ?thesis using Cons [of q acc] by simp
  next
    case (Some u)
    obtain res q' where zr: "ZRem q (fst r) = (res, q')" by (cases "ZRem q (fst r)")
    show ?thesis
      using Some zr Cons [of q' acc] Cons [of q' "acc @ [u]"]
      by (cases res) auto
  qed
qed

lemma lone_caller_is_GetDuePosts:
  "\<not> fails_next q \<Longrightarrow>
   interleave parse (replicate (Suc (Suc (length (zrangebyscore (zset q) (Unix now) maxCount)))) 0)
       (q, [Calling now maxCount])
     = (snd (GetDuePosts parse q now maxCount),
        [Returned (projr (fst (GetDuePosts parse q now maxCount)))])"
  using lone_caller_loop [of parse "zrangebyscore (zset q) (Unix now) maxCount" "consume q" "[]"]
  by (simp add: GetDuePosts_scan_ok ZRangeByScoreWithScores_def)

section \<open>The posts table: which statements touch a finished post\<close>

text \<open>
  Four of the five statements that change a post carry the condition
  \<open>status = 'scheduled'\<close>: they leave every published or failed row as it is.
\<close>

lemma guarded_statements_keep_terminal_rows:
  assumes "posts d pid = Some p" and "terminal p"
  shows "posts (snd (PublishPost d dbnow target)) pid = Some p"
    and "posts (snd (ScheduleRetry d dbnow target nextRetryAt errorMsg)) pid = Some p"
    and "posts (snd (UpdatePost d dbnow target userID title content channel scheduledAt)) pid
           = Some p"
    and "posts (snd (DeletePost d target userID)) pid = Some p"
  using assms
  by (auto simp: PublishPost_def ScheduleRetry_def UpdatePost_def DeletePost_def db_consume_def
      terminal_def Let_def split: option.splits)

text \<open>
  Claim C1 (the code departs from it). \<open>MarkPostFailed\<close> has no such condition: its
  statement is \<open>WHERE id = $1\<close> alone. Applied to a published post it succeeds and
  turns the post into a failed one, a transition out of a terminal status.
\<close>

theorem MarkPostFailed_overwrites_published_post:
  "map_option Status (posts db_with_published 1) = Some PostStatusPublished \<and>
   fst (MarkPostFailed db_with_published 9 1 ''boom'') = None \<and>
   posts (snd (MarkPostFailed db_with_published 9 1 ''boom'')) 1
     = Some (published_post\<lparr>Status := PostStatusFailed, LastError := Some ''boom'',
                             UpdatedAt := 9\<rparr>)"
proof -
  have st: "Status published_post = PostStatusPublished"
    by (simp add: published_post_def)
  show ?thesis
    by (simp add: MarkPostFailed_def db_with_published_def db_fails_next_def db_consume_def st)
qed

section \<open>Retry with backoff\<close>

text \<open>
  Cutting an instant down to microseconds commutes with adding whole minutes and keeps
  the whole seconds.
\<close>

lemma to_timestamptz_plus_minutes:
  "to_timestamptz (t + k * Minute) = to_timestamptz t + k * Minute"
proof -
  define c where "c = k * 60000000"
  have km: "k * Minute = c * 1000" by (simp add: c_def Minute_def)
  have d: "(t + c * 1000) div 1000 = t div 1000 + c" by simp
  show ?thesis unfolding to_timestamptz_def km d by (simp add: algebra_simps)
qed

lemma to_timestamptz_bounds: "to_timestamptz t \<le> t \<and> t < to_timestamptz t + 1000"
proof -
  have "t = t div 1000 * 1000 + t mod 1000" by simp
  moreover have "0 \<le> t mod 1000" "t mod 1000 < 1000" by simp_all
  ultimately show ?thesis unfolding to_timestamptz_def by linarith
qed

lemma to_timestamptz_whole: "t mod 1000 = 0 \<Longrightarrow> to_timestamptz t = t"
  unfolding to_timestamptz_def by auto

lemma Unix_to_timestamptz: "Unix (to_timestamptz t) = Unix t"
proof -
  have a: "(t div 1000 * 1000) div (1000 * 1000000) = (t div 1000 * 1000) div 1000 div 1000000"
    by (rule zdiv_zmult2_eq) simp
  have b: "t div (1000 * 1000000) = t div 1000 div 1000000"
    by (rule zdiv_zmult2_eq) simp
  show ?thesis using a b by (simp add: Unix_def to_timestamptz_def)
qed

lemma zadd_empty: "zadd [] m s = [(m, s)]"
  by (simp add: zadd_def)

lemma handlePublishError_gives_up:
  assumes "MaxRetries \<le> RetryCount post + 1"
  shows "handlePublishError idstr w now dbnow post errorMsg
           = (fst (MarkPostFailed (wdb w) dbnow (ID post) errorMsg),
              w\<lparr>wdb := snd (MarkPostFailed (wdb w) dbnow (ID post) errorMsg)\<rparr>)"
  using assms by (simp add: handlePublishError_def Let_def split: prod.splits)

lemma handlePublishError_retries:
  assumes "RetryCount post + 1 < MaxRetries" and "0 \<le> RetryCount post"
      and "posts (wdb w) (ID post) = Some post" and "Status post = PostStatusScheduled"
      and "\<not> db_fails_next (wdb w)" and "\<not> fails_next (wqueue w)"
  shows "handlePublishError idstr w now dbnow post errorMsg
           = (None,
              w\<lparr>wdb := (db_consume (wdb w))\<lparr>posts := (posts (wdb w))(ID post \<mapsto>
                     post\<lparr>RetryCount := RetryCount post + 1, LastError := Some errorMsg,
                          NextRetryAt := Some (to_timestamptz
                            (now + 2 ^ nat (RetryCount post + 1) * Minute)),
                          UpdatedAt := dbnow\<rparr>)\<rparr>,
                wqueue := (consume (wqueue w))\<lparr>zset := zadd (zset (wqueue w)) (idstr (ID post))
                     (Unix (now + 2 ^ nat (RetryCount post + 1) * Minute))\<rparr>\<rparr>)"
  using assms
  by (simp add: handlePublishError_def Let_def ScheduleRetry_def Enqueue_def ZAdd_def
      backoffMinutes_def)

lemma publishPost_failing:
  assumes "posts (wdb w) pid = Some post" and "Status post = PostStatusScheduled"
      and "\<not> db_fails_next (wdb w)"
  shows "publishPost (\<lambda>p. Some errorMsg) idstr w now dbnow pid
           = handlePublishError idstr (w\<lparr>wdb := db_consume (wdb w)\<rparr>) now dbnow post errorMsg"
  using assms by (simp add: publishPost_def GetPostForRetry_def)

lemma publishPost_not_scheduled:
  assumes "posts (wdb w) pid = Some post" and "Status post \<noteq> PostStatusScheduled"
      and "\<not> db_fails_next (wdb w)"
  shows "publishPost publish idstr w now dbnow pid = (None, w\<lparr>wdb := db_consume (wdb w)\<rparr>)"
  using assms by (simp add: publishPost_def GetPostForRetry_def)

lemma reachable_db: "db_faults d = [] \<Longrightarrow> \<not> db_fails_next d \<and> db_consume d = d"
  by (simp add: db_fails_next_def db_consume_def)

lemma attempt_retry:
  assumes row: "posts (wdb w) pid = Some post" and key: "ID post = pid"
      and sched: "Status post = PostStatusScheduled"
      and lo: "0 \<le> RetryCount post" and hi: "RetryCount post + 1 < MaxRetries"
      and db_up: "db_faults (wdb w) = []" and q_up: "faults (wqueue w) = []"
  shows "publishPost (\<lambda>p. Some errorMsg) idstr w now dbnow pid
           = (None,
              w\<lparr>wdb := (wdb w)\<lparr>posts := (posts (wdb w))(pid \<mapsto>
                     post\<lparr>RetryCount := RetryCount post + 1, LastError := Some errorMsg,
                          NextRetryAt := Some (to_timestamptz
                            (now + 2 ^ nat (RetryCount post + 1) * Minute)),
                          UpdatedAt := dbnow\<rparr>)\<rparr>,
                wqueue := (consume (wqueue w))\<lparr>zset := zadd (zset (wqueue w)) (idstr pid)
                     (Unix (now + 2 ^ nat (RetryCount post + 1) * Minute))\<rparr>\<rparr>)"
proof -
  have d: "\<not> db_fails_next (wdb w)" "db_consume (wdb w) = wdb w"
    using reachable_db [OF db_up] by simp_all
  have q: "\<not> fails_next (wqueue w)"
    using q_up by (simp add: fails_next_def)
  have same: "w\<lparr>wdb := db_consume (wdb w)\<rparr> = w"
    by (simp add: d)
  have "publishPost (\<lambda>p. Some errorMsg) idstr w now dbnow pid
          = handlePublishError idstr w now dbnow post errorMsg"
    using publishPost_failing [OF row sched d(1), of errorMsg idstr now dbnow] same by simp
  also have "\<dots> = (None,
              w\<lparr>wdb := (db_consume (wdb w))\<lparr>posts := (posts (wdb w))(ID post \<mapsto>
                     post\<lparr>RetryCount := RetryCount post + 1, LastError := Some errorMsg,
                          NextRetryAt := Some (to_timestamptz
                            (now + 2 ^ nat (RetryCount post + 1) * Minute)),
                          UpdatedAt := dbnow\<rparr>)\<rparr>,
                wqueue := (consume (wqueue w))\<lparr>zset := zadd (zset (wqueue w)) (idstr (ID post))
                     (Unix (now + 2 ^ nat (RetryCount post + 1) * Minute))\<rparr>\<rparr>)"
    using row key by (intro handlePublishError_retries [OF hi lo _ sched d(1) q]) simp
  finally show ?thesis by (simp add: d key)
qed

lemma attempt_give_up:
  assumes row: "posts (wdb w) pid = Some post" and key: "ID post = pid"
      and sched: "Status post = PostStatusScheduled"
      and hi: "MaxRetries \<le> RetryCount post + 1"
      and db_up: "db_faults (wdb w) = []"
  shows "publishPost (\<lambda>p. Some errorMsg) idstr w now dbnow pid
           = (None,
              w\<lparr>wdb := (wdb w)\<lparr>posts := (posts (wdb w))(pid \<mapsto>
                     post\<lparr>Status := PostStatusFailed, LastError := Some errorMsg,
                          UpdatedAt := dbnow\<rparr>)\<rparr>\<rparr>)"
proof -
  have d: "\<not> db_fails_next (wdb w)" "db_consume (wdb w) = wdb w"
    using reachable_db [OF db_up] by simp_all
  have same: "w\<lparr>wdb := db_consume (wdb w)\<rparr> = w"
    by (simp add: d)
  have "publishPost (\<lambda>p. Some errorMsg) idstr w now dbnow pid
          = handlePublishError idstr w now dbnow post errorMsg"
    using publishPost_failing [OF row sched d(1), of errorMsg idstr now dbnow] same by simp
  then show ?thesis
    using row key d by (simp add: handlePublishError_gives_up [OF hi] MarkPostFailed_def)
qed

text \<open>
  A pass of the worker over a reachable queue that holds one entry, due and readable:
  the pass claims the entry, which empties the queue, and attempts the post. Over an
  empty queue a pass does nothing but scan.
\<close>

lemma GetDuePosts_single:
  assumes "zset q = [(m, s)]" and "faults q = []" and "s \<le> Unix now" and "parse m = Some pid"
  shows "GetDuePosts parse q now 100 = (Inr [pid], q\<lparr>zset := [], issued := issued q + 2\<rparr>)"
  using assms
  by (simp add: GetDuePosts_def ZRangeByScoreWithScores_def ZRem_def fails_next_def consume_def
      zrangebyscore_def zrem_def zrem_count_def)

lemma GetDuePosts_empty:
  assumes "zset q = []" and "faults q = []"
  shows "GetDuePosts parse q now 100 = (Inr [], q\<lparr>issued := Suc (issued q)\<rparr>)"
  using assms
  by (simp add: GetDuePosts_def ZRangeByScoreWithScores_def fails_next_def consume_def
      zrangebyscore_def)

lemma pass_single:
  assumes "zset (wqueue w) = [(idstr pid, s)]" and "faults (wqueue w) = []"
      and "s \<le> Unix now" and "parse (idstr pid) = Some pid"
  shows "processDuePosts publish idstr parse w now dbnow
           = snd (publishPost publish idstr
                    (w\<lparr>wqueue := (wqueue w)\<lparr>zset := [], issued := issued (wqueue w) + 2\<rparr>\<rparr>)
                    now dbnow pid)"
  using GetDuePosts_single [of "wqueue w" "idstr pid" s now parse pid] assms
  by (simp add: processDuePosts_def)

lemma pass_empty:
  assumes "zset (wqueue w) = []" and "faults (wqueue w) = []"
  shows "processDuePosts publish idstr parse w now dbnow
           = w\<lparr>wqueue := (wqueue w)\<lparr>issued := Suc (issued (wqueue w))\<rparr>\<rparr>"
  using GetDuePosts_empty [of "wqueue w" parse now] assms
  by (simp add: processDuePosts_def)

lemma pass_retry:
  fixes w :: world and pid :: uuid and post :: Post and errorMsg :: string
    and idstr :: "uuid \<Rightarrow> string" and parse :: "string \<Rightarrow> uuid option"
    and now dbnow :: time and s :: int
  assumes row: "posts (wdb w) pid = Some post" and key: "ID post = pid"
      and sched: "Status post = PostStatusScheduled"
      and lo: "0 \<le> RetryCount post" and hi: "RetryCount post + 1 < MaxRetries"
      and db_up: "db_faults (wdb w) = []" and q_up: "faults (wqueue w) = []"
      and entry: "zset (wqueue w) = [(idstr pid, s)]" and due: "s \<le> Unix now"
      and reads: "parse (idstr pid) = Some pid"
  defines "w' \<equiv> processDuePosts (\<lambda>p. Some errorMsg) idstr parse w now dbnow"
  shows "posts (wdb w') pid
           = Some (post\<lparr>RetryCount := RetryCount post + 1, LastError := Some errorMsg,
                NextRetryAt := Some (to_timestamptz now + 2 ^ nat (RetryCount post + 1) * Minute),
                UpdatedAt := dbnow\<rparr>)"
    and "zset (wqueue w') = [(idstr pid, Unix (now + 2 ^ nat (RetryCount post + 1) * Minute))]"
    and "db_faults (wdb w') = []" and "faults (wqueue w') = []"
proof -
  let ?v = "w\<lparr>wqueue := (wqueue w)\<lparr>zset := [], issued := issued (wqueue w) + 2\<rparr>\<rparr>"
  have run: "w' = snd (publishPost (\<lambda>p. Some errorMsg) idstr ?v now dbnow pid)"
    unfolding w'_def
    using pass_single [of w idstr pid s now parse "\<lambda>p. Some errorMsg" dbnow] entry q_up due reads
    by simp
  have a: "posts (wdb ?v) pid = Some post" using row by simp
  have b: "db_faults (wdb ?v) = []" using db_up by simp
  have c: "faults (wqueue ?v) = []" using q_up by simp
  note step = attempt_retry [OF a key sched lo hi b c, of errorMsg idstr now dbnow]
  show "posts (wdb w') pid
           = Some (post\<lparr>RetryCount := RetryCount post + 1, LastError := Some errorMsg,
                NextRetryAt := Some (to_timestamptz now + 2 ^ nat (RetryCount post + 1) * Minute),
                UpdatedAt := dbnow\<rparr>)"
    unfolding run step by (simp add: to_timestamptz_plus_minutes)
  show "zset (wqueue w') = [(idstr pid, Unix (now + 2 ^ nat (RetryCount post + 1) * Minute))]"
    unfolding run step by (simp add: zadd_empty)
  show "db_faults (wdb w') = []"
    unfolding run step using db_up by simp
  show "faults (wqueue w') = []"
    unfolding run step using q_up by (simp add: consume_def)
qed

lemma pass_give_up:
  fixes w :: world and pid :: uuid and post :: Post and errorMsg :: string
    and idstr :: "uuid \<Rightarrow> string" and parse :: "string \<Rightarrow> uuid option"
    and now dbnow :: time and s :: int
  assumes row: "posts (wdb w) pid = Some post" and key: "ID post = pid"
      and sched: "Status post = PostStatusScheduled"
      and hi: "MaxRetries \<le> RetryCount post + 1"
      and db_up: "db_faults (wdb w) = []" and q_up: "faults (wqueue w) = []"
      and entry: "zset (wqueue w) = [(idstr pid, s)]" and due: "s \<le> Unix now"
      and reads: "parse (idstr pid) = Some pid"
  defines "w' \<equiv> processDuePosts (\<lambda>p. Some errorMsg) idstr parse w now dbnow"
  shows "posts (wdb w') pid
           = Some (post\<lparr>Status := PostStatusFailed, LastError := Some errorMsg,
                UpdatedAt := dbnow\<rparr>)"
    and "zset (wqueue w') = []"
    and "db_faults (wdb w') = []" and "faults (wqueue w') = []"
proof -
  let ?v = "w\<lparr>wqueue := (wqueue w)\<lparr>zset := [], issued := issued (wqueue w) + 2\<rparr>\<rparr>"
  have run: "w' = snd (publishPost (\<lambda>p. Some errorMsg) idstr ?v now dbnow pid)"
    unfolding w'_def
    using pass_single [of w idstr pid s now parse "\<lambda>p. Some errorMsg" dbnow] entry q_up due reads
    by simp
  have a: "posts (wdb ?v) pid = Some post" using row by simp
  have b: "db_faults (wdb ?v) = []" using db_up by simp
  note step = attempt_give_up [OF a key sched hi b, of errorMsg idstr now dbnow]
  show "posts (wdb w') pid
           = Some (post\<lparr>Status := PostStatusFailed, LastError := Some errorMsg,
                UpdatedAt := dbnow\<rparr>)"
    unfolding run step by simp
  show "zset (wqueue w') = []"
    unfolding run step by simp
  show "db_faults (wdb w') = []"
    unfolding run step using db_up by simp
  show "faults (wqueue w') = []"
    unfolding run step using q_up by simp
qed

lemma three_failures:
  fixes w :: world and pid :: uuid and post :: Post and errorMsg :: string
    and idstr :: "uuid \<Rightarrow> string" and parse :: "string \<Rightarrow> uuid option"
    and ta tb tc td da db dc dd :: time and s :: int
  assumes row: "posts (wdb w) pid = Some post" and key: "ID post = pid"
      and sched: "Status post = PostStatusScheduled" and fresh: "RetryCount post = 0"
      and db_up: "db_faults (wdb w) = []" and q_up: "faults (wqueue w) = []"
      and entry: "zset (wqueue w) = [(idstr pid, s)]" and reads: "parse (idstr pid) = Some pid"
      and due_a: "s \<le> Unix ta" and due_b: "Unix (ta + 2 * Minute) \<le> Unix tb"
      and due_c: "Unix (tb + 4 * Minute) \<le> Unix tc"
  defines "w1 \<equiv> processDuePosts (\<lambda>p. Some errorMsg) idstr parse w ta da"
  defines "w2 \<equiv> processDuePosts (\<lambda>p. Some errorMsg) idstr parse w1 tb db"
  defines "w3 \<equiv> processDuePosts (\<lambda>p. Some errorMsg) idstr parse w2 tc dc"
  defines "w4 \<equiv> processDuePosts (\<lambda>p. Some errorMsg) idstr parse w3 td dd"
  shows "posts (wdb w1) pid
              = Some (post\<lparr>RetryCount := 1, LastError := Some errorMsg,
                   NextRetryAt := Some (to_timestamptz ta + 2 * Minute), UpdatedAt := da\<rparr>) \<and>
            zset (wqueue w1) = [(idstr pid, Unix (ta + 2 * Minute))] \<and>
            posts (wdb w2) pid
              = Some (post\<lparr>RetryCount := 2, LastError := Some errorMsg,
                   NextRetryAt := Some (to_timestamptz tb + 4 * Minute), UpdatedAt := db\<rparr>) \<and>
            zset (wqueue w2) = [(idstr pid, Unix (tb + 4 * Minute))] \<and>
            posts (wdb w3) pid
              = Some (post\<lparr>Status := PostStatusFailed, RetryCount := 2,
                   LastError := Some errorMsg,
                   NextRetryAt := Some (to_timestamptz tb + 4 * Minute), UpdatedAt := dc\<rparr>) \<and>
            zset (wqueue w3) = [] \<and>
            posts (wdb w4) = posts (wdb w3) \<and> zset (wqueue w4) = []"
proof -
  let ?p1 = "post\<lparr>RetryCount := 1, LastError := Some errorMsg,
             NextRetryAt := Some (to_timestamptz ta + 2 * Minute), UpdatedAt := da\<rparr>"
  let ?p2 = "post\<lparr>RetryCount := 2, LastError := Some errorMsg,
             NextRetryAt := Some (to_timestamptz tb + 4 * Minute), UpdatedAt := db\<rparr>"
  let ?p3 = "post\<lparr>Status := PostStatusFailed, RetryCount := 2,
             LastError := Some errorMsg, NextRetryAt := Some (to_timestamptz tb + 4 * Minute),
             UpdatedAt := dc\<rparr>"
  have lo: "0 \<le> RetryCount post" and hi: "RetryCount post + 1 < MaxRetries"
    using fresh by (simp_all add: MaxRetries_def)
  note first = pass_retry [where w = w and pid = pid and post = post and idstr = idstr
      and parse = parse and s = s and now = ta and errorMsg = errorMsg and dbnow = da,
      OF row key sched lo hi db_up q_up entry due_a reads, folded w1_def]
  have w1_row: "posts (wdb w1) pid = Some ?p1"
    using first(1) fresh by simp
  have w1_z: "zset (wqueue w1) = [(idstr pid, Unix (ta + 2 * Minute))]"
    using first(2) fresh by simp
  have k1: "ID ?p1 = pid" and s1: "Status ?p1 = PostStatusScheduled"
    and lo1: "0 \<le> RetryCount ?p1" and hi1: "RetryCount ?p1 + 1 < MaxRetries"
    using key sched by (simp_all add: MaxRetries_def)
  note second = pass_retry [where w = w1 and pid = pid and post = "?p1" and idstr = idstr
      and parse = parse and s = "Unix (ta + 2 * Minute)" and now = tb and errorMsg = errorMsg
      and dbnow = db,
      OF w1_row k1 s1 lo1 hi1 first(3) first(4) w1_z due_b reads, folded w2_def]
  have w2_row: "posts (wdb w2) pid = Some ?p2"
    using second(1) by simp
  have w2_z: "zset (wqueue w2) = [(idstr pid, Unix (tb + 4 * Minute))]"
    using second(2) by simp
  have k2: "ID ?p2 = pid" and s2: "Status ?p2 = PostStatusScheduled"
    and hi2: "MaxRetries \<le> RetryCount ?p2 + 1"
    using key sched by (simp_all add: MaxRetries_def)
  note third = pass_give_up [where w = w2 and pid = pid and post = "?p2" and idstr = idstr
      and parse = parse and s = "Unix (tb + 4 * Minute)" and now = tc and errorMsg = errorMsg
      and dbnow = dc,
      OF w2_row k2 s2 hi2 second(3) second(4) w2_z due_c reads, folded w3_def]
  have p3: "?p2\<lparr>Status := PostStatusFailed, LastError := Some errorMsg, UpdatedAt := dc\<rparr> = ?p3"
    by (rule Post.equality) simp_all
  have w3_row: "posts (wdb w3) pid = Some ?p3"
    using third(1) unfolding p3 by simp
  have w4: "w4 = w3\<lparr>wqueue := (wqueue w3)\<lparr>issued := Suc (issued (wqueue w3))\<rparr>\<rparr>"
    unfolding w4_def by (rule pass_empty [OF third(2) third(4)])
  have e7: "posts (wdb w4) = posts (wdb w3)" by (simp add: w4)
  have e8: "zset (wqueue w4) = []" using third(2) by (simp add: w4)
  show ?thesis
    by (intro conjI) (rule w1_row w1_z w2_row w2_z w3_row third(2) e7 e8)+
qed

text \<open>
  Claim C2. A post in the table, scheduled, with prior attempt count \<open>a \<ge> 0\<close>, fails
  to publish while the database and the queue are reachable. If \<open>a + 1 \<ge> MaxRetries\<close>
  (3) the worker marks the post failed with the error text and leaves the queue as it is.
  Otherwise it stores \<open>next_retry_at = now + 2^(a+1)\<close> minutes, with the attempt count
  and the error text, and the queue then holds the post's id with the Unix seconds of
  that instant as its one score. The column keeps microseconds, so what is stored is the
  instant cut down to microseconds: the clock reading cut down to microseconds plus
  exactly \<open>2^(a+1)\<close> minutes, the same whole seconds as the score, and \<open>now + 2^(a+1)\<close>
  minutes itself when the clock reading is a whole number of microseconds.

  Starting from \<open>a = 0\<close> with the post's id as the one entry of the queue, three passes
  of the worker that find the entry due and fail to publish: the first stores
  \<open>next_retry_at\<close> 2 minutes after its clock reading and leaves the id in the queue at
  that time, the second does the same with 4 minutes, the third marks the post failed and
  leaves the queue empty, and a fourth pass changes neither the table nor the queue.
\<close>

theorem retry_backoff_schedule:
  fixes w :: world and pid :: uuid and post :: Post and errorMsg :: string
    and idstr :: "uuid \<Rightarrow> string" and parse :: "string \<Rightarrow> uuid option"
    and now dbnow ta tb tc td da db dc dd :: time and s :: int
  assumes row: "posts (wdb w) pid = Some post" and key: "ID post = pid"
      and sched: "Status post = PostStatusScheduled" and lo: "0 \<le> RetryCount post"
      and db_up: "db_faults (wdb w) = []" and q_up: "faults (wqueue w) = []"
  defines "w1 \<equiv> processDuePosts (\<lambda>p. Some errorMsg) idstr parse w ta da"
  defines "w2 \<equiv> processDuePosts (\<lambda>p. Some errorMsg) idstr parse w1 tb db"
  defines "w3 \<equiv> processDuePosts (\<lambda>p. Some errorMsg) idstr parse w2 tc dc"
  defines "w4 \<equiv> processDuePosts (\<lambda>p. Some errorMsg) idstr parse w3 td dd"
  shows "(MaxRetries \<le> RetryCount post + 1 \<longrightarrow>
            handlePublishError idstr w now dbnow post errorMsg
              = (None, w\<lparr>wdb := (wdb w)\<lparr>posts := (posts (wdb w))(pid \<mapsto>
                    post\<lparr>Status := PostStatusFailed, LastError := Some errorMsg,
                         UpdatedAt := dbnow\<rparr>)\<rparr>\<rparr>) \<and>
            wqueue (snd (handlePublishError idstr w now dbnow post errorMsg)) = wqueue w) \<and>
         (RetryCount post + 1 < MaxRetries \<longrightarrow>
            fst (handlePublishError idstr w now dbnow post errorMsg) = None \<and>
            posts (wdb (snd (handlePublishError idstr w now dbnow post errorMsg))) pid
              = Some (post\<lparr>RetryCount := RetryCount post + 1, LastError := Some errorMsg,
                   NextRetryAt := Some (to_timestamptz
                     (now + 2 ^ nat (RetryCount post + 1) * Minute)),
                   UpdatedAt := dbnow\<rparr>) \<and>
            to_timestamptz (now + 2 ^ nat (RetryCount post + 1) * Minute)
              = to_timestamptz now + 2 ^ nat (RetryCount post + 1) * Minute \<and>
            to_timestamptz now \<le> now \<and> now < to_timestamptz now + 1000 \<and>
            (now mod 1000 = 0 \<longrightarrow>
               to_timestamptz (now + 2 ^ nat (RetryCount post + 1) * Minute)
                 = now + 2 ^ nat (RetryCount post + 1) * Minute) \<and>
            Unix (to_timestamptz (now + 2 ^ nat (RetryCount post + 1) * Minute))
              = Unix (now + 2 ^ nat (RetryCount post + 1) * Minute) \<and>
            zset (wqueue (snd (handlePublishError idstr w now dbnow post errorMsg)))
              = zadd (zset (wqueue w)) (idstr pid)
                  (Unix (now + 2 ^ nat (RetryCount post + 1) * Minute)) \<and>
            (idstr pid, Unix (now + 2 ^ nat (RetryCount post + 1) * Minute))
              \<in> set (zset (wqueue (snd (handlePublishError idstr w now dbnow post errorMsg)))) \<and>
            (\<forall>s'. (idstr pid, s')
                     \<in> set (zset (wqueue (snd (handlePublishError idstr w now dbnow post errorMsg))))
               \<longrightarrow> s' = Unix (now + 2 ^ nat (RetryCount post + 1) * Minute))) \<and>
         (RetryCount post = 0 \<and> parse (idstr pid) = Some pid \<and>
          zset (wqueue w) = [(idstr pid, s)] \<and> s \<le> Unix ta \<and>
          Unix (ta + 2 * Minute) \<le> Unix tb \<and> Unix (tb + 4 * Minute) \<le> Unix tc \<longrightarrow>
            posts (wdb w1) pid
              = Some (post\<lparr>RetryCount := 1, LastError := Some errorMsg,
                   NextRetryAt := Some (to_timestamptz ta + 2 * Minute), UpdatedAt := da\<rparr>) \<and>
            zset (wqueue w1) = [(idstr pid, Unix (ta + 2 * Minute))] \<and>
            posts (wdb w2) pid
              = Some (post\<lparr>RetryCount := 2, LastError := Some errorMsg,
                   NextRetryAt := Some (to_timestamptz tb + 4 * Minute), UpdatedAt := db\<rparr>) \<and>
            zset (wqueue w2) = [(idstr pid, Unix (tb + 4 * Minute))] \<and>
            posts (wdb w3) pid
              = Some (post\<lparr>Status := PostStatusFailed, RetryCount := 2,
                   LastError := Some errorMsg,
                   NextRetryAt := Some (to_timestamptz tb + 4 * Minute), UpdatedAt := dc\<rparr>) \<and>
            zset (wqueue w3) = [] \<and>
            posts (wdb w4) = posts (wdb w3) \<and> zset (wqueue w4) = [])"
proof -
  have d: "\<not> db_fails_next (wdb w)" "db_consume (wdb w) = wdb w"
    using reachable_db [OF db_up] by simp_all
  have q: "\<not> fails_next (wqueue w)"
    using q_up by (simp add: fails_next_def)
  have give_up: "handlePublishError idstr w now dbnow post errorMsg
          = (None, w\<lparr>wdb := (wdb w)\<lparr>posts := (posts (wdb w))(pid \<mapsto>
                post\<lparr>Status := PostStatusFailed, LastError := Some errorMsg,
                     UpdatedAt := dbnow\<rparr>)\<rparr>\<rparr>)"
    if hi: "MaxRetries \<le> RetryCount post + 1"
    using row key d by (simp add: handlePublishError_gives_up [OF hi] MarkPostFailed_def)
  have first: "MaxRetries \<le> RetryCount post + 1 \<longrightarrow>
            handlePublishError idstr w now dbnow post errorMsg
              = (None, w\<lparr>wdb := (wdb w)\<lparr>posts := (posts (wdb w))(pid \<mapsto>
                    post\<lparr>Status := PostStatusFailed, LastError := Some errorMsg,
                         UpdatedAt := dbnow\<rparr>)\<rparr>\<rparr>) \<and>
            wqueue (snd (handlePublishError idstr w now dbnow post errorMsg)) = wqueue w"
    by (simp add: give_up)
  let ?t = "now + 2 ^ nat (RetryCount post + 1) * Minute"
  have retry: "handlePublishError idstr w now dbnow post errorMsg
           = (None,
              w\<lparr>wdb := (db_consume (wdb w))\<lparr>posts := (posts (wdb w))(ID post \<mapsto>
                     post\<lparr>RetryCount := RetryCount post + 1, LastError := Some errorMsg,
                          NextRetryAt := Some (to_timestamptz ?t),
                          UpdatedAt := dbnow\<rparr>)\<rparr>,
                wqueue := (consume (wqueue w))\<lparr>zset := zadd (zset (wqueue w)) (idstr (ID post))
                     (Unix ?t)\<rparr>\<rparr>)"
    if hi: "RetryCount post + 1 < MaxRetries"
    using row key by (intro handlePublishError_retries [OF hi lo _ sched d(1) q]) simp
  have r1: "fst (handlePublishError idstr w now dbnow post errorMsg) = None"
    if hi: "RetryCount post + 1 < MaxRetries"
    by (simp add: retry [OF hi])
  have r2: "posts (wdb (snd (handlePublishError idstr w now dbnow post errorMsg))) pid
          = Some (post\<lparr>RetryCount := RetryCount post + 1, LastError := Some errorMsg,
               NextRetryAt := Some (to_timestamptz ?t), UpdatedAt := dbnow\<rparr>)"
    if hi: "RetryCount post + 1 < MaxRetries"
    by (simp add: retry [OF hi] key)
  have r3: "zset (wqueue (snd (handlePublishError idstr w now dbnow post errorMsg)))
          = zadd (zset (wqueue w)) (idstr pid) (Unix ?t)"
    if hi: "RetryCount post + 1 < MaxRetries"
    by (simp add: retry [OF hi] key)
  have r4: "(idstr pid, Unix ?t)
              \<in> set (zset (wqueue (snd (handlePublishError idstr w now dbnow post errorMsg)))) \<and>
            (\<forall>s'. (idstr pid, s')
                     \<in> set (zset (wqueue (snd (handlePublishError idstr w now dbnow post errorMsg))))
               \<longrightarrow> s' = Unix ?t)"
    if hi: "RetryCount post + 1 < MaxRetries"
    unfolding r3 [OF hi] by (rule zadd_holds)
  have t1: "to_timestamptz ?t = to_timestamptz now + 2 ^ nat (RetryCount post + 1) * Minute"
    by (rule to_timestamptz_plus_minutes)
  have t2: "to_timestamptz now \<le> now \<and> now < to_timestamptz now + 1000"
    by (rule to_timestamptz_bounds)
  have t3: "now mod 1000 = 0 \<longrightarrow> to_timestamptz ?t = ?t"
    using t1 to_timestamptz_whole [of now] by simp
  have t4: "Unix (to_timestamptz ?t) = Unix ?t"
    by (rule Unix_to_timestamptz)
  have second: "RetryCount post + 1 < MaxRetries \<longrightarrow>
            fst (handlePublishError idstr w now dbnow post errorMsg) = None \<and>
            posts (wdb (snd (handlePublishError idstr w now dbnow post errorMsg))) pid
              = Some (post\<lparr>RetryCount := RetryCount post + 1, LastError := Some errorMsg,
                   NextRetryAt := Some (to_timestamptz ?t), UpdatedAt := dbnow\<rparr>) \<and>
            to_timestamptz ?t = to_timestamptz now + 2 ^ nat (RetryCount post + 1) * Minute \<and>
            to_timestamptz now \<le> now \<and> now < to_timestamptz now + 1000 \<and>
            (now mod 1000 = 0 \<longrightarrow> to_timestamptz ?t = ?t) \<and>
            Unix (to_timestamptz ?t) = Unix ?t \<and>
            zset (wqueue (snd (handlePublishError idstr w now dbnow post errorMsg)))
              = zadd (zset (wqueue w)) (idstr pid) (Unix ?t) \<and>
            (idstr pid, Unix ?t)
              \<in> set (zset (wqueue (snd (handlePublishError idstr w now dbnow post errorMsg)))) \<and>
            (\<forall>s'. (idstr pid, s')
                     \<in> set (zset (wqueue (snd (handlePublishError idstr w now dbnow post errorMsg))))
               \<longrightarrow> s' = Unix ?t)"
  proof (intro impI)
    assume hi: "RetryCount post + 1 < MaxRetries"
    note q4 = r4 [OF hi]
    show "fst (handlePublishError idstr w now dbnow post errorMsg) = None \<and>
            posts (wdb (snd (handlePublishError idstr w now dbnow post errorMsg))) pid
              = Some (post\<lparr>RetryCount := RetryCount post + 1, LastError := Some errorMsg,
                   NextRetryAt := Some (to_timestamptz ?t), UpdatedAt := dbnow\<rparr>) \<and>
            to_timestamptz ?t = to_timestamptz now + 2 ^ nat (RetryCount post + 1) * Minute \<and>
            to_timestamptz now \<le> now \<and> now < to_timestamptz now + 1000 \<and>
            (now mod 1000 = 0 \<longrightarrow> to_timestamptz ?t = ?t) \<and>
            Unix (to_timestamptz ?t) = Unix ?t \<and>
            zset (wqueue (snd (handlePublishError idstr w now dbnow post errorMsg)))
              = zadd (zset (wqueue w)) (idstr pid) (Unix ?t) \<and>
            (idstr pid, Unix ?t)
              \<in> set (zset (wqueue (snd (handlePublishError idstr w now dbnow post errorMsg)))) \<and>
            (\<forall>s'. (idstr pid, s')
                     \<in> set (zset (wqueue (snd (handlePublishError idstr w now dbnow post errorMsg))))
               \<longrightarrow> s' = Unix ?t)"
      by (intro conjI) (rule r1 [OF hi] r2 [OF hi] r3 [OF hi] t1 t2 [THEN conjunct1]
          t2 [THEN conjunct2] t3 t4 q4 [THEN conjunct1] q4 [THEN conjunct2])+
  qed
  have third: "RetryCount post = 0 \<and> parse (idstr pid) = Some pid \<and>
          zset (wqueue w) = [(idstr pid, s)] \<and> s \<le> Unix ta \<and>
          Unix (ta + 2 * Minute) \<le> Unix tb \<and> Unix (tb + 4 * Minute) \<le> Unix tc \<longrightarrow>
            posts (wdb w1) pid
              = Some (post\<lparr>RetryCount := 1, LastError := Some errorMsg,
                   NextRetryAt := Some (to_timestamptz ta + 2 * Minute), UpdatedAt := da\<rparr>) \<and>
            zset (wqueue w1) = [(idstr pid, Unix (ta + 2 * Minute))] \<and>
            posts (wdb w2) pid
              = Some (post\<lparr>RetryCount := 2, LastError := Some errorMsg,
                   NextRetryAt := Some (to_timestamptz tb + 4 * Minute), UpdatedAt := db\<rparr>) \<and>
            zset (wqueue w2) = [(idstr pid, Unix (tb + 4 * Minute))] \<and>
            posts (wdb w3) pid
              = Some (post\<lparr>Status := PostStatusFailed, RetryCount := 2,
                   LastError := Some errorMsg,
                   NextRetryAt := Some (to_timestamptz tb + 4 * Minute), UpdatedAt := dc\<rparr>) \<and>
            zset (wqueue w3) = [] \<and>
            posts (wdb w4) = posts (wdb w3) \<and> zset (wqueue w4) = []"
  proof (intro impI, elim conjE)
    assume fresh: "RetryCount post = 0" and reads: "parse (idstr pid) = Some pid"
      and entry: "zset (wqueue w) = [(idstr pid, s)]" and due_a: "s \<le> Unix ta"
      and due_b: "Unix (ta + 2 * Minute) \<le> Unix tb" and due_c: "Unix (tb + 4 * Minute) \<le> Unix tc"
    note seq = three_failures [where w = w and pid = pid and post = post and idstr = idstr
        and parse = parse and s = s and ta = ta and tb = tb and tc = tc and td = td
        and da = da and db = db and dc = dc and dd = dd and errorMsg = errorMsg,
        OF row key sched fresh db_up q_up entry reads due_a due_b due_c,
        folded w1_def, folded w2_def, folded w3_def, folded w4_def]
    show "posts (wdb w1) pid
              = Some (post\<lparr>RetryCount := 1, LastError := Some errorMsg,
                   NextRetryAt := Some (to_timestamptz ta + 2 * Minute), UpdatedAt := da\<rparr>) \<and>
            zset (wqueue w1) = [(idstr pid, Unix (ta + 2 * Minute))] \<and>
            posts (wdb w2) pid
              = Some (post\<lparr>RetryCount := 2, LastError := Some errorMsg,
                   NextRetryAt := Some (to_timestamptz tb + 4 * Minute), UpdatedAt := db\<rparr>) \<and>
            zset (wqueue w2) = [(idstr pid, Unix (tb + 4 * Minute))] \<and>
            posts (wdb w3) pid
              = Some (post\<lparr>Status := PostStatusFailed, RetryCount := 2,
                   LastError := Some errorMsg,
                   NextRetryAt := Some (to_timestamptz tb + 4 * Minute), UpdatedAt := dc\<rparr>) \<and>
            zset (wqueue w3) = [] \<and>
            posts (wdb w4) = posts (wdb w3) \<and> zset (wqueue w4) = []"
      by (rule seq)
  qed
  show ?thesis
    by (intro conjI) (rule first second third)+
qed

theorem retry_backoff_schedule_witness:
  "posts (wdb world_one) 1 = Some scheduled_post \<and> RetryCount scheduled_post = 0 \<and>
   zset (wqueue world_one) = [(id_text_1, 0)] \<and>
   posts (wdb (snd (handlePublishError sample_idstr world_one 1000000123 1000000000
       scheduled_post ''api down''))) 1
     = Some (scheduled_post\<lparr>RetryCount := 1, LastError := Some ''api down'',
          NextRetryAt := Some 121000000000, UpdatedAt := 1000000000\<rparr>) \<and>
   zset (wqueue (snd (handlePublishError sample_idstr world_one 1000000123 1000000000
       scheduled_post ''api down''))) = [(id_text_1, 121)] \<and>
   posts (wdb after_first) 1
     = Some (scheduled_post\<lparr>RetryCount := 1, LastError := Some ''api down'',
          NextRetryAt := Some 121000000000, UpdatedAt := 1000000000\<rparr>) \<and>
   zset (wqueue after_first) = [(id_text_1, 121)] \<and>
   posts (wdb after_second) 1
     = Some (scheduled_post\<lparr>RetryCount := 2, LastError := Some ''api down'',
          NextRetryAt := Some 361000000000, UpdatedAt := 121000000000\<rparr>) \<and>
   zset (wqueue after_second) = [(id_text_1, 361)] \<and>
   posts (wdb after_third) 1
     = Some (scheduled_post\<lparr>Status := PostStatusFailed, RetryCount := 2,
          LastError := Some ''api down'', NextRetryAt := Some 361000000000,
          UpdatedAt := 361000000000\<rparr>) \<and>
   zset (wqueue after_third) = [] \<and>
   MaxRetries \<le> RetryCount (scheduled_post\<lparr>RetryCount := 2, LastError := Some ''api down'',
          NextRetryAt := Some 361000000000, UpdatedAt := 121000000000\<rparr>) + 1 \<and>
   fst (handlePublishError sample_idstr after_second 361000000000 361000000000
       (scheduled_post\<lparr>RetryCount := 2, LastError := Some ''api down'',
          NextRetryAt := Some 361000000000, UpdatedAt := 121000000000\<rparr>) ''api down'') = None \<and>
   wqueue (snd (handlePublishError sample_idstr after_second 361000000000 361000000000
       (scheduled_post\<lparr>RetryCount := 2, LastError := Some ''api down'',
          NextRetryAt := Some 361000000000, UpdatedAt := 121000000000\<rparr>) ''api down'')) = wqueue after_second \<and>
   map_option Status (posts (wdb (snd (handlePublishError sample_idstr after_second
       361000000000 361000000000
       (scheduled_post\<lparr>RetryCount := 2, LastError := Some ''api down'',
          NextRetryAt := Some 361000000000, UpdatedAt := 121000000000\<rparr>) ''api down''))) 1) = Some PostStatusFailed"
proof -
  have row: "posts (wdb world_one) 1 = Some scheduled_post"
    by (simp add: world_one_def)
  have key: "ID scheduled_post = 1" and sched: "Status scheduled_post = PostStatusScheduled"
    and fresh: "RetryCount scheduled_post = 0" and lo: "0 \<le> RetryCount scheduled_post"
    by (simp_all add: scheduled_post_def)
  have db_up: "db_faults (wdb world_one) = []" and q_up: "faults (wqueue world_one) = []"
    by (simp_all add: world_one_def)
  have entry: "zset (wqueue world_one) = [(sample_idstr 1, 0)]"
    by (simp add: world_one_def sample_idstr_def)
  have reads: "sample_parse (sample_idstr 1) = Some 1"
    by (simp add: sample_parse_def sample_idstr_def)
  have due: "0 \<le> Unix 1000000123" "Unix (1000000123 + 2 * Minute) \<le> Unix 121000000000"
      "Unix (121000000000 + 4 * Minute) \<le> Unix 361000000000"
    by (simp_all add: Unix_def Minute_def)
  have hi: "RetryCount scheduled_post + 1 < MaxRetries"
    by (simp add: fresh MaxRetries_def)
  note all = retry_backoff_schedule [where w = world_one and pid = 1 and post = scheduled_post
      and errorMsg = "''api down''" and idstr = sample_idstr and parse = sample_parse
      and s = 0 and now = 1000000123 and dbnow = 1000000000
      and ta = 1000000123 and da = 1000000000 and tb = 121000000000 and db = 121000000000
      and tc = 361000000000 and dc = 361000000000,
      OF row key sched lo db_up q_up, folded failing_publish_def, folded after_first_def,
      folded after_second_def, folded after_third_def]
  note single = all [THEN conjunct2, THEN conjunct1, THEN mp, OF hi]
  have seq_hyp: "RetryCount scheduled_post = 0 \<and> sample_parse (sample_idstr 1) = Some 1 \<and>
      zset (wqueue world_one) = [(sample_idstr 1, 0)] \<and> 0 \<le> Unix 1000000123 \<and>
      Unix (1000000123 + 2 * Minute) \<le> Unix 121000000000 \<and>
      Unix (121000000000 + 4 * Minute) \<le> Unix 361000000000"
    using fresh reads entry due by blast
  note seq = all [THEN conjunct2, THEN conjunct2, THEN mp, OF seq_hyp]
  have one: "sample_idstr 1 = id_text_1" by (simp add: sample_idstr_def)
  have za: "zadd [(id_text_1, 0)] id_text_1 121 = [(id_text_1, 121)]"
    by (simp add: zadd_def)
  have data: "zset (wqueue world_one) = [(id_text_1, 0)]"
    by (simp add: world_one_def)
  note single_row = single [THEN conjunct2, THEN conjunct1]
  note single_queue = single [THEN conjunct2, THEN conjunct2, THEN conjunct2, THEN conjunct2,
      THEN conjunct2, THEN conjunct2, THEN conjunct2, THEN conjunct1]
  have sa: "posts (wdb (snd (handlePublishError sample_idstr world_one 1000000123 1000000000
               scheduled_post ''api down''))) 1
             = Some (scheduled_post\<lparr>RetryCount := 1, LastError := Some ''api down'',
                  NextRetryAt := Some 121000000000, UpdatedAt := 1000000000\<rparr>)"
    using single_row by (simp add: fresh Minute_def to_timestamptz_def)
  have sb: "zset (wqueue (snd (handlePublishError sample_idstr world_one 1000000123 1000000000
               scheduled_post ''api down''))) = [(id_text_1, 121)]"
    using single_queue by (simp add: fresh Minute_def Unix_def one data za)
  have pa: "posts (wdb after_first) 1
     = Some (scheduled_post\<lparr>RetryCount := 1, LastError := Some ''api down'',
          NextRetryAt := Some 121000000000, UpdatedAt := 1000000000\<rparr>)"
    using seq [THEN conjunct1] by (simp add: Minute_def to_timestamptz_def)
  have qa: "zset (wqueue after_first) = [(id_text_1, 121)]"
    using seq [THEN conjunct2, THEN conjunct1] by (simp add: Minute_def Unix_def one)
  have pb: "posts (wdb after_second) 1
     = Some (scheduled_post\<lparr>RetryCount := 2, LastError := Some ''api down'',
          NextRetryAt := Some 361000000000, UpdatedAt := 121000000000\<rparr>)"
    using seq [THEN conjunct2, THEN conjunct2, THEN conjunct1]
    by (simp add: Minute_def to_timestamptz_def)
  have qb: "zset (wqueue after_second) = [(id_text_1, 361)]"
    using seq [THEN conjunct2, THEN conjunct2, THEN conjunct2, THEN conjunct1]
    by (simp add: Minute_def Unix_def one)
  have pc: "posts (wdb after_third) 1
     = Some (scheduled_post\<lparr>Status := PostStatusFailed, RetryCount := 2,
          LastError := Some ''api down'', NextRetryAt := Some 361000000000,
          UpdatedAt := 361000000000\<rparr>)"
    using seq [THEN conjunct2, THEN conjunct2, THEN conjunct2, THEN conjunct2, THEN conjunct1]
    by (simp add: Minute_def to_timestamptz_def)
  have qc: "zset (wqueue after_third) = []"
    using seq [THEN conjunct2, THEN conjunct2, THEN conjunct2, THEN conjunct2, THEN conjunct2,
        THEN conjunct1]
    by simp
  let ?p1 = "scheduled_post\<lparr>RetryCount := 1, LastError := Some ''api down'',
               NextRetryAt := Some 121000000000, UpdatedAt := 1000000000\<rparr>"
  let ?p2 = "scheduled_post\<lparr>RetryCount := 2, LastError := Some ''api down'',
               NextRetryAt := Some 361000000000, UpdatedAt := 121000000000\<rparr>"
  have pass1: "after_first
      = \<lparr>wdb = \<lparr>posts = [1 \<mapsto> ?p1], db_faults = []\<rparr>,
         wqueue = \<lparr>zset = [(id_text_1, 121)], issued = 3, faults = []\<rparr>,
         invalidated = [], notified = []\<rparr>"
    by (simp add: after_first_def processDuePosts_def GetDuePosts_def
        ZRangeByScoreWithScores_def ZRem_def
        fails_next_def consume_def zrangebyscore_def zrem_def zrem_count_def Unix_def
        world_one_def sample_parse_def sample_idstr_def publishPost_def GetPostForRetry_def
        db_fails_next_def db_consume_def failing_publish_def handlePublishError_def
        MaxRetries_def backoffMinutes_def Minute_def ScheduleRetry_def Enqueue_def ZAdd_def
        zadd_def scheduled_post_def to_timestamptz_def)
  have pass2: "after_second
      = \<lparr>wdb = \<lparr>posts = [1 \<mapsto> ?p2], db_faults = []\<rparr>,
         wqueue = \<lparr>zset = [(id_text_1, 361)], issued = 6, faults = []\<rparr>,
         invalidated = [], notified = []\<rparr>"
    unfolding after_second_def pass1
    by (simp add: processDuePosts_def GetDuePosts_def ZRangeByScoreWithScores_def ZRem_def
        fails_next_def consume_def zrangebyscore_def zrem_def zrem_count_def Unix_def
        sample_parse_def sample_idstr_def publishPost_def GetPostForRetry_def
        db_fails_next_def db_consume_def failing_publish_def handlePublishError_def
        MaxRetries_def backoffMinutes_def Minute_def ScheduleRetry_def Enqueue_def ZAdd_def
        zadd_def scheduled_post_def to_timestamptz_def)
  have key2: "ID ?p2 = 1" and sched2: "Status ?p2 = PostStatusScheduled"
    and lo2: "0 \<le> RetryCount ?p2" and hi2: "MaxRetries \<le> RetryCount ?p2 + 1"
    by (simp_all add: scheduled_post_def MaxRetries_def)
  have db_up2: "db_faults (wdb after_second) = []" and q_up2: "faults (wqueue after_second) = []"
    by (simp_all add: pass2)
  note last = retry_backoff_schedule [where w = after_second and pid = 1 and post = "?p2"
      and errorMsg = "''api down''" and idstr = sample_idstr and parse = sample_parse
      and now = 361000000000 and dbnow = 361000000000,
      OF pb key2 sched2 lo2 db_up2 q_up2, THEN conjunct1, THEN mp, OF hi2]
  have la: "fst (handlePublishError sample_idstr after_second 361000000000 361000000000
              ?p2 ''api down'') = None"
    unfolding last [THEN conjunct1] by simp
  have lb: "wqueue (snd (handlePublishError sample_idstr after_second 361000000000 361000000000
              ?p2 ''api down'')) = wqueue after_second"
    by (rule last [THEN conjunct2])
  have lc: "map_option Status (posts (wdb (snd (handlePublishError sample_idstr after_second
              361000000000 361000000000 ?p2 ''api down''))) 1) = Some PostStatusFailed"
    unfolding last [THEN conjunct1] by simp
  show ?thesis
    by (intro conjI) (rule row fresh data sa sb pa qa pb qb pc qc hi2 la lb lc)+
qed

section \<open>Local delivery\<close>

text \<open>
  What the sends of \<open>notifyLocal\<close> do to a store of channels when the channels are
  different objects, exist and are open: each one with room gets the update appended,
  every other channel is untouched, and nothing panics.
\<close>

lemma send_each_delivers:
  assumes "distinct chs" and "\<forall>ch \<in> set chs. \<exists>c. h ch = Some c \<and> \<not> closed c"
  shows "send_each update chs h sent
           = Some (sent + int (length (filter (has_room h) chs)), delivered update chs h)"
  using assms
proof (induction chs arbitrary: h sent)
  case Nil
  then show ?case by (simp add: delivered_def)
next
  case (Cons ch chs)
  obtain c where c: "h ch = Some c" "\<not> closed c" using Cons.prems(2) by auto
  have dist: "distinct chs" and notin: "ch \<notin> set chs" using Cons.prems(1) by simp_all
  show ?case
  proof (cases "length (buf c) < chan_cap")
    case True
    let ?h = "h(ch \<mapsto> c\<lparr>buf := buf c @ [update]\<rparr>)"
    have open': "\<forall>x \<in> set chs. \<exists>c'. ?h x = Some c' \<and> \<not> closed c'"
      using Cons.prems(2) c by auto
    have room: "filter (has_room ?h) chs = filter (has_room h) chs"
      using notin by (intro filter_cong) (auto simp: has_room_def)
    have del: "delivered update chs ?h = delivered update (ch # chs) h"
      using notin c True by (auto simp: delivered_def has_room_def fun_eq_iff)
    have step: "send_each update (ch # chs) h sent = send_each update chs ?h (sent + 1)"
      using c True by simp
    have ih: "send_each update chs ?h (sent + 1)
                = Some (sent + 1 + int (length (filter (has_room ?h) chs)), delivered update chs ?h)"
      by (rule Cons.IH [OF dist open'])
    have cnt: "filter (has_room h) (ch # chs) = ch # filter (has_room h) chs"
      using c True by (simp add: has_room_def)
    show ?thesis
      unfolding step ih room del cnt by simp
  next
    case False
    have del: "delivered update chs h = delivered update (ch # chs) h"
      using c False by (auto simp: delivered_def has_room_def fun_eq_iff)
    have open': "\<forall>x \<in> set chs. \<exists>c'. h x = Some c' \<and> \<not> closed c'"
      using Cons.prems(2) by auto
    have step: "send_each update (ch # chs) h sent = send_each update chs h sent"
      using c False by simp
    have ih: "send_each update chs h sent
                = Some (sent + int (length (filter (has_room h) chs)), delivered update chs h)"
      by (rule Cons.IH [OF dist open'])
    have cnt: "filter (has_room h) (ch # chs) = filter (has_room h) chs"
      using c False by (simp add: has_room_def)
    show ?thesis
      unfolding step ih del cnt by simp
  qed
qed

lemma notifyLocal_delivers:
  assumes ok: "registry_ok n"
  shows "notifyLocal n userID updateType
           = Some (int (length (filter (has_room (chans n)) (subs n userID))),
                   n\<lparr>chans := delivered \<lparr>update_UserID = userID, update_Type = updateType\<rparr>
                                 (subs n userID) (chans n)\<rparr>)"
proof (cases "subs n userID = []")
  case True
  have "delivered \<lparr>update_UserID = userID, update_Type = updateType\<rparr> [] (chans n) = chans n"
    by (simp add: delivered_def fun_eq_iff)
  then show ?thesis using True by (simp add: notifyLocal_def)
next
  case False
  have d: "distinct (subs n userID)"
    and o: "\<forall>ch \<in> set (subs n userID). \<exists>c. chans n ch = Some c \<and> \<not> closed c"
    using ok unfolding registry_ok_def by blast+
  show ?thesis
    using False send_each_delivers [OF d o, of _ 0]
    by (simp add: notifyLocal_def Let_def)
qed

lemma delivered_keeps_registry:
  assumes ok: "registry_ok n"
  shows "registry_ok (n\<lparr>chans := delivered update chs (chans n)\<rparr>)"
proof -
  have "\<exists>c. delivered update chs (chans n) ch = Some c \<and> \<not> closed c"
    if "chans n ch = Some c0" "\<not> closed c0" for ch c0
    using that by (simp add: delivered_def)
  then show ?thesis
    using ok unfolding registry_ok_def subs_def by (simp) blast
qed

lemma buffer_delivered:
  "buffer (n\<lparr>chans := delivered update chs (chans n)\<rparr>) ch
     = (if ch \<in> set chs \<and> length (buffer n ch) < chan_cap \<and> chans n ch \<noteq> None
        then buffer n ch @ [update] else buffer n ch)"
  by (auto simp: buffer_def delivered_def has_room_def split: option.splits)

lemma registry_ok_NewNotifier: "registry_ok (NewNotifier redisClient)"
  by (simp add: registry_ok_def NewNotifier_def subs_def)

lemma registry_okD:
  assumes "registry_ok n"
  shows "distinct (subs n u)"
    and "ch \<in> set (subs n u) \<Longrightarrow> ch < next_chan n"
    and "ch \<in> set (subs n u) \<Longrightarrow> \<exists>c. chans n ch = Some c \<and> \<not> closed c"
    and "u \<noteq> v \<Longrightarrow> set (subs n u) \<inter> set (subs n v) = {}"
  using assms unfolding registry_ok_def by blast+

lemma registry_okI:
  assumes "\<And>u. distinct (subs n u)"
      and "\<And>u ch. ch \<in> set (subs n u) \<Longrightarrow> ch < next_chan n"
      and "\<And>u ch. ch \<in> set (subs n u) \<Longrightarrow> \<exists>c. chans n ch = Some c \<and> \<not> closed c"
      and "\<And>u v. u \<noteq> v \<Longrightarrow> set (subs n u) \<inter> set (subs n v) = {}"
  shows "registry_ok n"
  unfolding registry_ok_def using assms by blast

lemma subs_Subscribe:
  "subs (snd (Subscribe n userID)) u
     = (if u = userID then subs n userID @ [next_chan n] else subs n u)"
  by (simp add: Subscribe_def Let_def subs_def)

lemma registry_ok_Subscribe:
  assumes ok: "registry_ok n"
  shows "registry_ok (snd (Subscribe n userID))"
proof (rule registry_okI)
  note d = registry_okD [OF ok]
  have fresh: "next_chan n \<notin> set (subs n u)" for u
    using d(2) [of "next_chan n" u] by auto
  show "distinct (subs (snd (Subscribe n userID)) u)" for u
    using d(1) [of u] fresh [of u] by (auto simp: subs_Subscribe)
  show "ch < next_chan (snd (Subscribe n userID))"
    if "ch \<in> set (subs (snd (Subscribe n userID)) u)" for u ch
  proof -
    have "ch = next_chan n \<or> ch \<in> set (subs n u)"
      using that by (auto simp: subs_Subscribe split: if_splits)
    then have "ch \<le> next_chan n" using d(2) [of ch u] by auto
    then show ?thesis by (simp add: Subscribe_def Let_def)
  qed
  show "\<exists>c. chans (snd (Subscribe n userID)) ch = Some c \<and> \<not> closed c"
    if "ch \<in> set (subs (snd (Subscribe n userID)) u)" for u ch
  proof -
    have "ch = next_chan n \<or> ch \<in> set (subs n u)"
      using that by (auto simp: subs_Subscribe split: if_splits)
    then show ?thesis
      using d(3) [of ch u] by (auto simp: Subscribe_def Let_def)
  qed
  show "set (subs (snd (Subscribe n userID)) u) \<inter> set (subs (snd (Subscribe n userID)) v) = {}"
    if "u \<noteq> v" for u v
    using that d(4) [of u v] fresh [of u] fresh [of v] by (auto simp: subs_Subscribe)
qed

lemma subs_Unsubscribe:
  "subs (Unsubscribe n userID ch) u
     = (if u = userID then remove1 ch (subs n userID) else subs n u)"
  by (auto simp: Unsubscribe_def Let_def subs_def remove1_idem split: option.splits)

lemma chans_Unsubscribe:
  "chans (Unsubscribe n userID ch)
     = (if ch \<in> set (subs n userID) then close_chan (chans n) ch else chans n)"
  by (simp add: Unsubscribe_def Let_def)

lemma registry_ok_Unsubscribe:
  assumes ok: "registry_ok n"
  shows "registry_ok (Unsubscribe n userID ch)"
proof (rule registry_okI)
  note d = registry_okD [OF ok]
  have sub: "set (subs (Unsubscribe n userID ch) u) \<subseteq> set (subs n u)" for u
    using set_remove1_subset [of ch "subs n userID"] by (auto simp: subs_Unsubscribe)
  have nxt: "next_chan (Unsubscribe n userID ch) = next_chan n"
    by (simp add: Unsubscribe_def Let_def)
  show "distinct (subs (Unsubscribe n userID ch) u)" for u
    using d(1) [of u] by (auto simp: subs_Unsubscribe)
  show "x < next_chan (Unsubscribe n userID ch)"
    if "x \<in> set (subs (Unsubscribe n userID ch) u)" for u x
    using that sub [of u] d(2) [of x u] by (auto simp: nxt)
  show "\<exists>c. chans (Unsubscribe n userID ch) x = Some c \<and> \<not> closed c"
    if x: "x \<in> set (subs (Unsubscribe n userID ch) u)" for u x
  proof -
    have old: "x \<in> set (subs n u)" using x sub [of u] by auto
    have "x \<noteq> ch" if "ch \<in> set (subs n userID)"
    proof (cases "u = userID")
      case True
      then show ?thesis using x d(1) [of userID] by (auto simp: subs_Unsubscribe)
    next
      case False
      then show ?thesis using old that d(4) [of u userID] by auto
    qed
    then show ?thesis
      using d(3) [OF old] by (auto simp: chans_Unsubscribe close_chan_def split: option.splits)
  qed
  show "set (subs (Unsubscribe n userID ch) u) \<inter> set (subs (Unsubscribe n userID ch) v) = {}"
    if "u \<noteq> v" for u v
    using that d(4) [of u v] sub [of u] sub [of v] by blast
qed

lemma registry_ok_cong:
  assumes "subscribers m = subscribers n" and "chans m = chans n" and "next_chan m = next_chan n"
  shows "registry_ok m = registry_ok n"
  using assms unfolding registry_ok_def subs_def by simp

lemma buffer_cong: "chans m = chans n \<Longrightarrow> buffer m ch = buffer n ch"
  by (simp add: buffer_def)

lemma subs_cong: "subscribers m = subscribers n \<Longrightarrow> subs m u = subs n u"
  by (simp add: subs_def)

section \<open>The relay\<close>

text \<open>
  The relay over a sequence of payloads, on a registry as \<open>Subscribe\<close> and
  \<open>Unsubscribe\<close> keep it: it returns, publishes nothing, and each registered channel
  ends with the decodable updates for its user appended in order of arrival, as far as
  its buffer has room; once the buffer is full the later ones are skipped.
\<close>

lemma listenRedis_delivers:
  assumes "registry_ok n"
  shows "\<exists>n'. listenRedis unmarshal n msgs = Some n' \<and> published n' = published n \<and>
           inbox n' = inbox n \<and> subscribers n' = subscribers n \<and>
           next_chan n' = next_chan n \<and> registry_ok n' \<and>
           (\<forall>u. \<forall>ch \<in> set (subs n u).
              buffer n' ch
                = buffer n ch @ take (chan_cap - length (buffer n ch))
                    (filter (\<lambda>upd. update_UserID upd = u) (List.map_filter unmarshal msgs))) \<and>
           (\<forall>ch. (\<forall>u. ch \<notin> set (subs n u)) \<longrightarrow> chans n' ch = chans n ch)"
  using assms
proof (induction msgs arbitrary: n)
  case Nil
  then show ?case by (simp add: List.map_filter_simps)
next
  case (Cons payload msgs)
  show ?case
  proof (cases "unmarshal payload")
    case None
    then show ?thesis using Cons.IH [OF Cons.prems] by (simp add: List.map_filter_simps)
  next
    case (Some update)
    let ?uid = "update_UserID update"
    let ?rest = "List.map_filter unmarshal msgs"
    have eta: "\<lparr>update_UserID = ?uid, update_Type = update_Type update\<rparr> = update"
      by simp
    let ?n1 = "n\<lparr>chans := delivered update (subs n ?uid) (chans n)\<rparr>"
    have ok1: "registry_ok ?n1" by (rule delivered_keeps_registry [OF Cons.prems])
    have step: "listenRedis unmarshal n (payload # msgs) = listenRedis unmarshal ?n1 msgs"
      using Some notifyLocal_delivers [OF Cons.prems, of ?uid "update_Type update"]
      by (simp add: eta)
    have subs1: "subs ?n1 u = subs n u" for u by (simp add: subs_def)
    obtain n' where run: "listenRedis unmarshal ?n1 msgs = Some n'"
        and pub: "published n' = published ?n1" and inb: "inbox n' = inbox ?n1"
        and reg: "subscribers n' = subscribers ?n1" and nxt: "next_chan n' = next_chan ?n1"
        and ok': "registry_ok n'"
        and bufs: "\<forall>u. \<forall>ch \<in> set (subs ?n1 u).
              buffer n' ch
                = buffer ?n1 ch @ take (chan_cap - length (buffer ?n1 ch))
                    (filter (\<lambda>upd. update_UserID upd = u) ?rest)"
        and others: "\<forall>ch. (\<forall>u. ch \<notin> set (subs ?n1 u)) \<longrightarrow> chans n' ch = chans ?n1 ch"
      using Cons.IH [OF ok1] by blast
    have all: "List.map_filter unmarshal (payload # msgs) = update # ?rest"
      using Some by (simp add: List.map_filter_simps)
    have inside: "buffer n' ch
                = buffer n ch @ take (chan_cap - length (buffer n ch))
                    (filter (\<lambda>upd. update_UserID upd = u) (update # ?rest))"
      if ch: "ch \<in> set (subs n u)" for u ch
    proof -
      have b: "buffer n' ch
                = buffer ?n1 ch @ take (chan_cap - length (buffer ?n1 ch))
                    (filter (\<lambda>upd. update_UserID upd = u) ?rest)"
        using bufs ch by (simp add: subs1)
      have alloc: "chans n ch \<noteq> None"
        using registry_okD(3) [OF Cons.prems ch] by auto
      show ?thesis
      proof (cases "u = ?uid")
        case True
        show ?thesis
        proof (cases "length (buffer n ch) < chan_cap")
          case room: True
          have b1: "buffer ?n1 ch = buffer n ch @ [update]"
            using ch True room alloc by (simp add: buffer_delivered)
          have k: "chan_cap - length (buffer n ch) = Suc (chan_cap - length (buffer ?n1 ch))"
            using room by (simp add: b1)
          show ?thesis
            unfolding b k using True by (simp add: b1)
        next
          case full: False
          have b1: "buffer ?n1 ch = buffer n ch"
            using full by (simp add: buffer_delivered)
          show ?thesis
            unfolding b using full by (simp add: b1)
        qed
      next
        case False
        have "ch \<notin> set (subs n ?uid)"
          using registry_okD(4) [OF Cons.prems False] ch by auto
        then have b1: "buffer ?n1 ch = buffer n ch"
          by (simp add: buffer_delivered)
        show ?thesis
          unfolding b using False by (simp add: b1)
      qed
    qed
    have outside: "chans n' ch = chans n ch" if "\<forall>u. ch \<notin> set (subs n u)" for ch
    proof -
      have "chans n' ch = chans ?n1 ch" using others that by (simp add: subs1)
      moreover have "ch \<notin> set (subs n ?uid)" using that by blast
      ultimately show ?thesis by (simp add: delivered_def)
    qed
    show ?thesis
      unfolding step all
      using run pub inb reg nxt ok' inside outside by simp
  qed
qed

lemma Notify_publishes:
  assumes "registry_ok n" and "has_redis n"
      and "marshal \<lparr>update_UserID = userID, update_Type = updateType\<rparr> = Some data"
  shows "map_option published (Notify marshal True n userID updateType)
           = Some (published n @ [data])"
  using assms by (simp add: Notify_def notifyLocal_delivers Let_def)

text \<open>
  Claim C7. The relay handles every payload it receives from the bus by local delivery
  alone: a payload that decodes to an update is delivered to the channels registered
  under the update's user (those with room), a payload that does not decode is dropped,
  and in either case nothing is published. After any sequence of received payloads the
  list of payloads this process has put on the bus is what it was before, and every
  registered channel holds, after what it held, the decodable updates for its user in
  order of arrival, as far as its 10 places allow; no other channel is touched.
\<close>

theorem relay_never_republishes:
  assumes ok: "registry_ok n"
  shows "(\<exists>n'. listenRedis unmarshal n msgs = Some n' \<and> published n' = published n \<and>
              subscribers n' = subscribers n \<and> registry_ok n' \<and>
              (\<forall>u. \<forall>ch \<in> set (subs n u).
                 buffer n' ch
                   = buffer n ch @ take (chan_cap - length (buffer n ch))
                       (filter (\<lambda>upd. update_UserID upd = u)
                          (List.map_filter unmarshal msgs))) \<and>
              (\<forall>ch. (\<forall>u. ch \<notin> set (subs n u)) \<longrightarrow> chans n' ch = chans n ch)) \<and>
         (\<exists>n'. relay unmarshal n = Some n' \<and> published n' = published n) \<and>
         (unmarshal payload = None \<longrightarrow> listenRedis unmarshal n [payload] = Some n) \<and>
         (\<forall>update. unmarshal payload = Some update \<longrightarrow>
            (\<exists>n1. listenRedis unmarshal n [payload] = Some n1 \<and> published n1 = published n \<and>
               (\<forall>ch \<in> set (subs n (update_UserID update)).
                  buffer n1 ch =
                    (if length (buffer n ch) < chan_cap then buffer n ch @ [update]
                     else buffer n ch)) \<and>
               (\<forall>ch. ch \<notin> set (subs n (update_UserID update)) \<longrightarrow> chans n1 ch = chans n ch)))"
proof (intro conjI impI allI)
  show "\<exists>n'. listenRedis unmarshal n msgs = Some n' \<and> published n' = published n \<and>
              subscribers n' = subscribers n \<and> registry_ok n' \<and>
              (\<forall>u. \<forall>ch \<in> set (subs n u).
                 buffer n' ch
                   = buffer n ch @ take (chan_cap - length (buffer n ch))
                       (filter (\<lambda>upd. update_UserID upd = u)
                          (List.map_filter unmarshal msgs))) \<and>
              (\<forall>ch. (\<forall>u. ch \<notin> set (subs n u)) \<longrightarrow> chans n' ch = chans n ch)"
    using listenRedis_delivers [OF ok, of unmarshal msgs] by blast
next
  have ok0: "registry_ok (n\<lparr>inbox := []\<rparr>)"
    using ok registry_ok_cong [of "n\<lparr>inbox := []\<rparr>" n] by simp
  show "\<exists>n'. relay unmarshal n = Some n' \<and> published n' = published n"
    using listenRedis_delivers [OF ok0, of unmarshal "inbox n"]
    by (auto simp: relay_def)
next
  assume "unmarshal payload = None"
  then show "listenRedis unmarshal n [payload] = Some n" by simp
next
  fix update assume dec: "unmarshal payload = Some update"
  have eta: "\<lparr>update_UserID = update_UserID update, update_Type = update_Type update\<rparr> = update"
    by simp
  let ?n1 = "n\<lparr>chans := delivered update (subs n (update_UserID update)) (chans n)\<rparr>"
  have run: "listenRedis unmarshal n [payload] = Some ?n1"
    using dec notifyLocal_delivers [OF ok, of "update_UserID update" "update_Type update"]
    by (simp add: eta)
  have alloc: "chans n ch \<noteq> None" if "ch \<in> set (subs n (update_UserID update))" for ch
    using registry_okD(3) [OF ok that] by auto
  have inside: "buffer ?n1 ch =
      (if length (buffer n ch) < chan_cap then buffer n ch @ [update] else buffer n ch)"
    if "ch \<in> set (subs n (update_UserID update))" for ch
    using that alloc [OF that] by (simp add: buffer_delivered)
  have outside: "chans ?n1 ch = chans n ch" if "ch \<notin> set (subs n (update_UserID update))" for ch
    using that by (simp add: delivered_def)
  show "\<exists>n1. listenRedis unmarshal n [payload] = Some n1 \<and> published n1 = published n \<and>
           (\<forall>ch \<in> set (subs n (update_UserID update)).
              buffer n1 ch =
                (if length (buffer n ch) < chan_cap then buffer n ch @ [update]
                 else buffer n ch)) \<and>
           (\<forall>ch. ch \<notin> set (subs n (update_UserID update)) \<longrightarrow> chans n1 ch = chans n ch)"
    using run inside outside by (intro exI [of _ ?n1]) simp
qed

theorem relay_never_republishes_witness:
  "published (the (listenRedis sample_unmarshal notifier_two_subscribers
       [''{user 7, update}'', ''garbage'', ''{user 7, update}''])) = [] \<and>
   buffer (the (listenRedis sample_unmarshal notifier_two_subscribers
       [''{user 7, update}'', ''garbage'', ''{user 7, update}''])) 0
     = [sample_update, sample_update] \<and>
   buffer (the (listenRedis sample_unmarshal notifier_two_subscribers
       [''{user 7, update}'', ''garbage'', ''{user 7, update}''])) 1
     = [sample_update, sample_update] \<and>
   published (the (Notify sample_marshal True notifier_two_subscribers 7 ''update''))
     = [''{user 7, update}''] \<and>
   buffer (the (listenRedis sample_unmarshal notifier_two_subscribers [''{user 7, update}''])) 0
     = [sample_update] \<and>
   buffer (the (listenRedis sample_unmarshal notifier_two_subscribers [''{user 7, update}''])) 1
     = [sample_update] \<and>
   listenRedis sample_unmarshal notifier_two_subscribers [''garbage'']
     = Some notifier_two_subscribers"
proof -
  have ok2: "registry_ok notifier_two_subscribers"
    unfolding notifier_two_subscribers_def
    by (intro registry_ok_Subscribe registry_ok_NewNotifier)
  have facts: "subs notifier_two_subscribers 7 = [0, 1]"
      "buffer notifier_two_subscribers 0 = []" "buffer notifier_two_subscribers (Suc 0) = []"
      "published notifier_two_subscribers = []" "has_redis notifier_two_subscribers"
    by (simp_all add: notifier_two_subscribers_def Subscribe_def NewNotifier_def subs_def
        buffer_def Let_def)
  have dec: "sample_unmarshal ''{user 7, update}'' = Some sample_update"
    and bad: "sample_unmarshal ''garbage'' = None"
    by (simp_all add: sample_unmarshal_def)
  have uid: "update_UserID sample_update = 7"
    by (simp add: sample_update_def)
  have decoded: "List.map_filter sample_unmarshal
        [''{user 7, update}'', ''garbage'', ''{user 7, update}''] = [sample_update, sample_update]"
    by (simp add: List.map_filter_simps dec bad)
  note inst = relay_never_republishes [OF ok2, where unmarshal = sample_unmarshal
      and msgs = "[''{user 7, update}'', ''garbage'', ''{user 7, update}'']"
      and payload = "''{user 7, update}''"]
  note drop = relay_never_republishes [OF ok2, where unmarshal = sample_unmarshal
      and msgs = "[]" and payload = "''garbage''"]
  obtain n' where n': "listenRedis sample_unmarshal notifier_two_subscribers
        [''{user 7, update}'', ''garbage'', ''{user 7, update}''] = Some n'"
      "published n' = published notifier_two_subscribers"
      and dn: "\<forall>u. \<forall>ch \<in> set (subs notifier_two_subscribers u).
                 buffer n' ch
                   = buffer notifier_two_subscribers ch
                       @ take (chan_cap - length (buffer notifier_two_subscribers ch))
                           (filter (\<lambda>upd. update_UserID upd = u)
                              (List.map_filter sample_unmarshal
                                 [''{user 7, update}'', ''garbage'', ''{user 7, update}'']))"
    using inst by blast
  obtain n1 where n1: "listenRedis sample_unmarshal notifier_two_subscribers
        [''{user 7, update}''] = Some n1"
      and d1: "\<forall>ch \<in> set (subs notifier_two_subscribers (update_UserID sample_update)).
                 buffer n1 ch =
                   (if length (buffer notifier_two_subscribers ch) < chan_cap
                    then buffer notifier_two_subscribers ch @ [sample_update]
                    else buffer notifier_two_subscribers ch)"
    using inst dec by blast
  have g: "listenRedis sample_unmarshal notifier_two_subscribers [''garbage'']
             = Some notifier_two_subscribers"
    using drop bad by blast
  have pub: "map_option published (Notify sample_marshal True notifier_two_subscribers 7 ''update'')
               = Some (published notifier_two_subscribers @ [''{user 7, update}''])"
    by (rule Notify_publishes [OF ok2 facts(5)]) (simp add: sample_marshal_def sample_update_def)
  then obtain m where m: "Notify sample_marshal True notifier_two_subscribers 7 ''update'' = Some m"
      "published m = [''{user 7, update}'']"
    using facts(4) by (cases "Notify sample_marshal True notifier_two_subscribers 7 ''update''") auto
  have dn7: "\<forall>ch \<in> set (subs notifier_two_subscribers 7).
                 buffer n' ch
                   = buffer notifier_two_subscribers ch
                       @ take (chan_cap - length (buffer notifier_two_subscribers ch))
                           (filter (\<lambda>upd. update_UserID upd = 7) [sample_update, sample_update])"
    using dn unfolding decoded by blast
  have c: "buffer n' 0 = [sample_update, sample_update]"
      "buffer n' (Suc 0) = [sample_update, sample_update]"
    using dn7 by (simp_all add: facts uid chan_cap_def)
  have b: "buffer n1 0 = [sample_update]" "buffer n1 (Suc 0) = [sample_update]"
    using d1 by (simp_all add: facts uid chan_cap_def)
  show ?thesis
    unfolding n'(1) n1 m(1) g using b c n'(2) m(2) facts(4) by simp
qed

section \<open>Notify and its echo\<close>

text \<open>
  What \<open>Notify\<close> returns on a registry as \<open>Subscribe\<close> and \<open>Unsubscribe\<close> keep it:
  the notifier after one round of local sends and, when the payload has reached the bus,
  with the payload recorded as published and as arrived on the process's own
  subscription.
\<close>

lemma Notify_result:
  assumes ok: "registry_ok n"
  shows "Notify marshal bus_ok n userID updateType
           = Some (case (if has_redis n \<and> bus_ok
                         then marshal \<lparr>update_UserID = userID, update_Type = updateType\<rparr>
                         else None) of
                     None \<Rightarrow>
                       n\<lparr>chans := delivered \<lparr>update_UserID = userID, update_Type = updateType\<rparr>
                                     (subs n userID) (chans n)\<rparr>
                   | Some data \<Rightarrow>
                       n\<lparr>chans := delivered \<lparr>update_UserID = userID, update_Type = updateType\<rparr>
                                     (subs n userID) (chans n),
                         published := published n @ [data],
                         inbox := (if pubsub n then inbox n @ [data] else inbox n)\<rparr>)"
  by (cases "marshal \<lparr>update_UserID = userID, update_Type = updateType\<rparr>")
     (simp_all add: Notify_def notifyLocal_delivers [OF ok] Let_def)

lemma relay_nothing_arrived: "inbox n = [] \<Longrightarrow> relay unmarshal n = Some n"
  by (simp add: relay_def)

text \<open>
  A call of \<open>Notify\<close> whose payload reaches the bus, followed by the relay taking the
  payload from the process's own subscription: the update is delivered a second time.
\<close>

lemma Notify_echo:
  fixes n :: Notifier and userID :: uuid and updateType :: string
  defines "u \<equiv> \<lparr>update_UserID = userID, update_Type = updateType\<rparr>"
  assumes ok: "registry_ok n" and redis: "has_redis n" and sub: "pubsub n"
      and empty: "inbox n = []"
      and enc: "marshal u = Some data" and dec: "unmarshal data = Some u"
  shows "\<exists>n''. Option.bind (Notify marshal True n userID updateType) (relay unmarshal) = Some n'' \<and>
           inbox n'' = [] \<and> published n'' = published n @ [data] \<and>
           subscribers n'' = subscribers n \<and>
           (\<forall>ch \<in> set (subs n userID).
              buffer n'' ch
                = buffer n ch @ replicate (min 2 (chan_cap - length (buffer n ch))) u) \<and>
           (\<forall>ch. ch \<notin> set (subs n userID) \<longrightarrow> chans n'' ch = chans n ch)"
proof -
  let ?S = "subs n userID"
  let ?h1 = "delivered u ?S (chans n)"
  let ?n1 = "n\<lparr>chans := ?h1\<rparr>"
  let ?n' = "n\<lparr>chans := ?h1, published := published n @ [data], inbox := [data]\<rparr>"
  let ?m = "?n'\<lparr>inbox := []\<rparr>"
  let ?n'' = "?m\<lparr>chans := delivered u ?S ?h1\<rparr>"
  have first: "Notify marshal True n userID updateType = Some ?n'"
    using Notify_result [OF ok, of marshal True userID updateType] redis sub empty enc
    by (simp add: u_def)
  have ok1: "registry_ok ?n1" by (rule delivered_keeps_registry [OF ok])
  have okm: "registry_ok ?m"
    using ok1 registry_ok_cong [of ?m ?n1] by simp
  have subs_m: "subs ?m userID = ?S" by (simp add: subs_def)
  have uid: "update_UserID u = userID" and uty: "update_Type u = updateType"
    by (simp_all add: u_def)
  have local: "notifyLocal ?m userID updateType
                 = Some (int (length (filter (has_room (chans ?m)) (subs ?m userID))), ?n'')"
    using notifyLocal_delivers [OF okm, of userID updateType]
    by (simp add: subs_def u_def)
  have second: "relay unmarshal ?n' = Some ?n''"
    using sub dec local by (simp add: relay_def uid uty)
  have run: "Option.bind (Notify marshal True n userID updateType) (relay unmarshal) = Some ?n''"
    by (simp add: first second)
  have alloc: "chans n ch \<noteq> None" if "ch \<in> set ?S" for ch
    using registry_okD(3) [OF ok that] by auto
  have once: "buffer ?n1 ch
      = (if length (buffer n ch) < chan_cap then buffer n ch @ [u] else buffer n ch)"
    if "ch \<in> set ?S" for ch
    using that alloc [OF that] by (simp add: buffer_delivered)
  have alloc1: "chans ?n1 ch \<noteq> None" if "ch \<in> set ?S" for ch
    using registry_okD(3) [OF ok that] by (auto simp: delivered_def)
  have twice: "buffer ?n'' ch
      = (if length (buffer ?n1 ch) < chan_cap then buffer ?n1 ch @ [u] else buffer ?n1 ch)"
    if "ch \<in> set ?S" for ch
  proof -
    have "buffer ?n'' ch = buffer (?n1\<lparr>chans := delivered u ?S (chans ?n1)\<rparr>) ch"
      by (simp add: buffer_def)
    also have "\<dots> = (if ch \<in> set ?S \<and> length (buffer ?n1 ch) < chan_cap \<and> chans ?n1 ch \<noteq> None
                      then buffer ?n1 ch @ [u] else buffer ?n1 ch)"
      by (rule buffer_delivered)
    finally show ?thesis using that alloc1 [OF that] by simp
  qed
  have inside: "buffer ?n'' ch
      = buffer n ch @ replicate (min 2 (chan_cap - length (buffer n ch))) u"
    if ch: "ch \<in> set ?S" for ch
  proof -
    consider (none) "chan_cap \<le> length (buffer n ch)"
      | (one) "Suc (length (buffer n ch)) = chan_cap"
      | (two) "Suc (Suc (length (buffer n ch))) \<le> chan_cap"
      by linarith
    then show ?thesis
    proof cases
      case none
      then have "chan_cap - length (buffer n ch) = 0" by simp
      then show ?thesis
        unfolding twice [OF ch] once [OF ch] using none by simp
    next
      case one
      then have "chan_cap - length (buffer n ch) = 1" by simp
      then show ?thesis
        unfolding twice [OF ch] once [OF ch] using one by simp
    next
      case two
      then have "min 2 (chan_cap - length (buffer n ch)) = Suc (Suc 0)" by simp
      then show ?thesis
        unfolding twice [OF ch] once [OF ch] using two by (simp add: numeral_2_eq_2)
    qed
  qed
  have outside: "chans ?n'' ch = chans n ch" if "ch \<notin> set ?S" for ch
    using that by (simp add: delivered_def)
  show ?thesis
    unfolding run using inside outside by simp
qed

text \<open>
  Claim C6, as stated, fails for a process built with a Redis client, as the API process
  is: \<open>Notify\<close> publishes the event on the bus, the bus hands it to the process's own
  subscription, and the relay delivers it again. Here two subscriptions of user 7 have
  empty buffers; after one call of \<open>Notify\<close> and the relay's turn, each channel holds
  two copies of the event, not one.
\<close>

theorem Notify_event_is_delivered_twice:
  "has_redis notifier_two_subscribers \<and> pubsub notifier_two_subscribers \<and>
   subs notifier_two_subscribers 7 = [0, 1] \<and>
   buffer notifier_two_subscribers 0 = [] \<and> buffer notifier_two_subscribers 1 = [] \<and>
   map_option inbox (Notify sample_marshal True notifier_two_subscribers 7 ''update'')
     = Some [''{user 7, update}''] \<and>
   map_option (\<lambda>n. buffer n 0)
       (Option.bind (Notify sample_marshal True notifier_two_subscribers 7 ''update'')
          (relay sample_unmarshal))
     = Some [sample_update, sample_update] \<and>
   map_option (\<lambda>n. buffer n 1)
       (Option.bind (Notify sample_marshal True notifier_two_subscribers 7 ''update'')
          (relay sample_unmarshal))
     = Some [sample_update, sample_update]"
proof -
  have ok2: "registry_ok notifier_two_subscribers"
    unfolding notifier_two_subscribers_def
    by (intro registry_ok_Subscribe registry_ok_NewNotifier)
  have facts: "subs notifier_two_subscribers 7 = [0, 1]"
      "buffer notifier_two_subscribers 0 = []" "buffer notifier_two_subscribers (Suc 0) = []"
      "published notifier_two_subscribers = []" "has_redis notifier_two_subscribers"
      "pubsub notifier_two_subscribers" "inbox notifier_two_subscribers = []"
    by (simp_all add: notifier_two_subscribers_def Subscribe_def NewNotifier_def subs_def
        buffer_def Let_def)
  have enc: "sample_marshal \<lparr>update_UserID = 7, update_Type = ''update''\<rparr> = Some ''{user 7, update}''"
    by (simp add: sample_marshal_def sample_update_def)
  have dec: "sample_unmarshal ''{user 7, update}'' = Some \<lparr>update_UserID = 7, update_Type = ''update''\<rparr>"
    by (simp add: sample_unmarshal_def sample_update_def)
  have arrived: "map_option inbox (Notify sample_marshal True notifier_two_subscribers 7 ''update'')
                   = Some [''{user 7, update}'']"
    by (simp add: Notify_result [OF ok2] facts enc)
  obtain n'' where run: "Option.bind (Notify sample_marshal True notifier_two_subscribers 7 ''update'')
          (relay sample_unmarshal) = Some n''"
      and bufs: "\<forall>ch \<in> set (subs notifier_two_subscribers 7).
              buffer n'' ch
                = buffer notifier_two_subscribers ch
                    @ replicate (min 2 (chan_cap - length (buffer notifier_two_subscribers ch)))
                        \<lparr>update_UserID = 7, update_Type = ''update''\<rparr>"
    using Notify_echo [OF ok2 facts(5) facts(6) facts(7), of sample_marshal 7 "''update''"
        "''{user 7, update}''" sample_unmarshal] enc dec
    by blast
  have b: "buffer n'' 0 = [sample_update, sample_update]"
      "buffer n'' (Suc 0) = [sample_update, sample_update]"
    using bufs by (simp_all add: facts chan_cap_def sample_update_def numeral_2_eq_2)
  show ?thesis
    unfolding run arrived using b facts by simp
qed

text \<open>
  Claim C6, amended. On a registry as \<open>Subscribe\<close> and \<open>Unsubscribe\<close> keep it, a call
  \<open>Notify(subject, kind)\<close> returns (no send blocks, none panics), and when it returns
  every channel registered under the subject whose buffer had room holds one more
  element, the event, at the end of its buffer; a channel whose buffer already held 10
  elements is left as it was, and so is every channel not registered under the subject.
  The registrations themselves are unchanged. That is the delivery made by the call
  itself. When the process has a Redis client and the payload reaches the bus, the
  payload also arrives on the process's own subscription, and the relay then delivers
  the event once more: after the call and the relay's turn, each channel registered
  under the subject holds as many more copies of the event as it had room for, up to
  two. When nothing reaches the bus, the relay has nothing to deliver and the copy made
  by the call is the only one.
\<close>

theorem Notify_delivers_to_each_channel_with_room_and_echoes:
  assumes ok: "registry_ok n"
  shows "(\<exists>n'. Notify marshal bus_ok n userID updateType = Some n' \<and>
           subscribers n' = subscribers n \<and> registry_ok n' \<and>
           (\<forall>ch \<in> set (subs n userID).
              buffer n' ch =
                (if length (buffer n ch) < chan_cap
                 then buffer n ch @ [\<lparr>update_UserID = userID, update_Type = updateType\<rparr>]
                 else buffer n ch)) \<and>
           (\<forall>ch. ch \<notin> set (subs n userID) \<longrightarrow> chans n' ch = chans n ch) \<and>
           published n'
             = (case (if has_redis n \<and> bus_ok
                      then marshal \<lparr>update_UserID = userID, update_Type = updateType\<rparr>
                      else None) of
                  None \<Rightarrow> published n | Some data \<Rightarrow> published n @ [data]) \<and>
           inbox n'
             = (case (if has_redis n \<and> bus_ok \<and> pubsub n
                      then marshal \<lparr>update_UserID = userID, update_Type = updateType\<rparr>
                      else None) of
                  None \<Rightarrow> inbox n | Some data \<Rightarrow> inbox n @ [data])) \<and>
         (has_redis n \<and> pubsub n \<and> inbox n = [] \<and>
          marshal \<lparr>update_UserID = userID, update_Type = updateType\<rparr> = Some data \<and>
          unmarshal data = Some \<lparr>update_UserID = userID, update_Type = updateType\<rparr> \<longrightarrow>
            (\<exists>n''. Option.bind (Notify marshal True n userID updateType) (relay unmarshal)
                      = Some n'' \<and>
               inbox n'' = [] \<and> published n'' = published n @ [data] \<and>
               subscribers n'' = subscribers n \<and>
               (\<forall>ch \<in> set (subs n userID).
                  buffer n'' ch
                    = buffer n ch @ replicate (min 2 (chan_cap - length (buffer n ch)))
                        \<lparr>update_UserID = userID, update_Type = updateType\<rparr>) \<and>
               (\<forall>ch. ch \<notin> set (subs n userID) \<longrightarrow> chans n'' ch = chans n ch))) \<and>
         (inbox n = [] \<and>
          (\<not> has_redis n \<or> \<not> bus_ok \<or> \<not> pubsub n \<or>
           marshal \<lparr>update_UserID = userID, update_Type = updateType\<rparr> = None) \<longrightarrow>
            Option.bind (Notify marshal bus_ok n userID updateType) (relay unmarshal)
              = Notify marshal bus_ok n userID updateType)"
proof -
  let ?u = "\<lparr>update_UserID = userID, update_Type = updateType\<rparr>"
  let ?n1 = "n\<lparr>chans := delivered ?u (subs n userID) (chans n)\<rparr>"
  note res = Notify_result [OF ok, of marshal bus_ok userID updateType]
  have "\<exists>n'. Notify marshal bus_ok n userID updateType = Some n' \<and> chans n' = chans ?n1 \<and>
          subscribers n' = subscribers n \<and> next_chan n' = next_chan n \<and>
          published n'
             = (case (if has_redis n \<and> bus_ok then marshal ?u else None) of
                  None \<Rightarrow> published n | Some data \<Rightarrow> published n @ [data]) \<and>
          inbox n'
             = (case (if has_redis n \<and> bus_ok \<and> pubsub n then marshal ?u else None) of
                  None \<Rightarrow> inbox n | Some data \<Rightarrow> inbox n @ [data])"
    unfolding res by (cases "marshal ?u") simp_all
  then obtain n' where n': "Notify marshal bus_ok n userID updateType = Some n'"
      and same: "chans n' = chans ?n1" "subscribers n' = subscribers n" "next_chan n' = next_chan n"
      and pub: "published n'
             = (case (if has_redis n \<and> bus_ok then marshal ?u else None) of
                  None \<Rightarrow> published n | Some data \<Rightarrow> published n @ [data])"
      and inb: "inbox n'
             = (case (if has_redis n \<and> bus_ok \<and> pubsub n then marshal ?u else None) of
                  None \<Rightarrow> inbox n | Some data \<Rightarrow> inbox n @ [data])"
    by blast
  have ok1: "registry_ok ?n1" by (rule delivered_keeps_registry [OF ok])
  have ok': "registry_ok n'"
    using ok1 same registry_ok_cong [of n' ?n1] by simp
  have alloc: "chans n ch \<noteq> None" if "ch \<in> set (subs n userID)" for ch
    using registry_okD(3) [OF ok that] by auto
  have bufs: "buffer n' ch = buffer ?n1 ch" for ch
    using same(1) by (simp add: buffer_def)
  have inside: "buffer n' ch =
      (if length (buffer n ch) < chan_cap then buffer n ch @ [?u] else buffer n ch)"
    if "ch \<in> set (subs n userID)" for ch
    using that alloc [OF that] by (simp add: bufs buffer_delivered)
  have outside: "chans n' ch = chans n ch" if "ch \<notin> set (subs n userID)" for ch
    using that same(1) by (simp add: delivered_def)
  have call: "\<exists>n'. Notify marshal bus_ok n userID updateType = Some n' \<and>
           subscribers n' = subscribers n \<and> registry_ok n' \<and>
           (\<forall>ch \<in> set (subs n userID).
              buffer n' ch =
                (if length (buffer n ch) < chan_cap then buffer n ch @ [?u] else buffer n ch)) \<and>
           (\<forall>ch. ch \<notin> set (subs n userID) \<longrightarrow> chans n' ch = chans n ch) \<and>
           published n'
             = (case (if has_redis n \<and> bus_ok then marshal ?u else None) of
                  None \<Rightarrow> published n | Some data \<Rightarrow> published n @ [data]) \<and>
           inbox n'
             = (case (if has_redis n \<and> bus_ok \<and> pubsub n then marshal ?u else None) of
                  None \<Rightarrow> inbox n | Some data \<Rightarrow> inbox n @ [data])"
    using n' same(2) ok' inside outside pub inb by blast
  have echo: "has_redis n \<and> pubsub n \<and> inbox n = [] \<and> marshal ?u = Some data \<and>
          unmarshal data = Some ?u \<longrightarrow>
            (\<exists>n''. Option.bind (Notify marshal True n userID updateType) (relay unmarshal)
                      = Some n'' \<and>
               inbox n'' = [] \<and> published n'' = published n @ [data] \<and>
               subscribers n'' = subscribers n \<and>
               (\<forall>ch \<in> set (subs n userID).
                  buffer n'' ch
                    = buffer n ch @ replicate (min 2 (chan_cap - length (buffer n ch))) ?u) \<and>
               (\<forall>ch. ch \<notin> set (subs n userID) \<longrightarrow> chans n'' ch = chans n ch))"
    using Notify_echo [OF ok, of marshal userID updateType data unmarshal] by blast
  have quiet: "inbox n = [] \<and>
          (\<not> has_redis n \<or> \<not> bus_ok \<or> \<not> pubsub n \<or> marshal ?u = None) \<longrightarrow>
            Option.bind (Notify marshal bus_ok n userID updateType) (relay unmarshal)
              = Notify marshal bus_ok n userID updateType"
  proof (intro impI, elim conjE)
    assume e: "inbox n = []"
      and no: "\<not> has_redis n \<or> \<not> bus_ok \<or> \<not> pubsub n \<or> marshal ?u = None"
    have "inbox n' = []"
      using no e unfolding inb by (cases "marshal ?u") auto
    then show "Option.bind (Notify marshal bus_ok n userID updateType) (relay unmarshal)
              = Notify marshal bus_ok n userID updateType"
      unfolding n' by (simp add: relay_nothing_arrived)
  qed
  show ?thesis
    by (intro conjI) (rule call echo quiet)+
qed

theorem Notify_delivers_to_each_channel_with_room_and_echoes_witness:
  "map_option (\<lambda>n. buffer n 0) (Notify sample_marshal True notifier_two_subscribers 7 ''update'')
     = Some [sample_update] \<and>
   map_option (\<lambda>n. buffer n 1) (Notify sample_marshal True notifier_two_subscribers 7 ''update'')
     = Some [sample_update] \<and>
   map_option (\<lambda>n. buffer n 0) (Notify sample_marshal True notifier_one_full 7 ''update'')
     = Some (replicate 10 sample_update) \<and>
   map_option (\<lambda>n. buffer n 1) (Notify sample_marshal True notifier_one_full 7 ''update'')
     = Some [sample_update] \<and>
   map_option (\<lambda>n. buffer n 0)
       (Option.bind (Notify sample_marshal True notifier_one_full 7 ''update'')
          (relay sample_unmarshal))
     = Some (replicate 10 sample_update) \<and>
   map_option (\<lambda>n. buffer n 1)
       (Option.bind (Notify sample_marshal True notifier_one_full 7 ''update'')
          (relay sample_unmarshal))
     = Some [sample_update, sample_update] \<and>
   map_option (\<lambda>n. buffer n 1)
       (Option.bind (Notify sample_marshal False notifier_one_full 7 ''update'')
          (relay sample_unmarshal))
     = Some [sample_update]"
proof -
  have ok2: "registry_ok notifier_two_subscribers"
    unfolding notifier_two_subscribers_def
    by (intro registry_ok_Subscribe registry_ok_NewNotifier)
  have ok1: "registry_ok notifier_one_full"
    by (rule registry_okI) (auto simp: notifier_one_full_def subs_def split: if_splits)
  have subs2: "subs notifier_two_subscribers 7 = [0, 1]"
    and b2: "buffer notifier_two_subscribers 0 = []" "buffer notifier_two_subscribers (Suc 0) = []"
    by (simp_all add: notifier_two_subscribers_def Subscribe_def NewNotifier_def subs_def
        buffer_def Let_def)
  have subs1: "subs notifier_one_full 7 = [0, 1]"
    and b1: "buffer notifier_one_full 0 = replicate 10 sample_update"
      "buffer notifier_one_full (Suc 0) = []"
    and f1: "has_redis notifier_one_full" "pubsub notifier_one_full" "inbox notifier_one_full = []"
    by (simp_all add: notifier_one_full_def subs_def buffer_def)
  have enc: "sample_marshal \<lparr>update_UserID = 7, update_Type = ''update''\<rparr> = Some ''{user 7, update}''"
    by (simp add: sample_marshal_def sample_update_def)
  have dec: "sample_unmarshal ''{user 7, update}'' = Some \<lparr>update_UserID = 7, update_Type = ''update''\<rparr>"
    by (simp add: sample_unmarshal_def sample_update_def)
  note two = Notify_delivers_to_each_channel_with_room_and_echoes
      [OF ok2, of sample_marshal True 7 "''update''" "''{user 7, update}''" sample_unmarshal]
  note full = Notify_delivers_to_each_channel_with_room_and_echoes
      [OF ok1, of sample_marshal True 7 "''update''" "''{user 7, update}''" sample_unmarshal]
  note down = Notify_delivers_to_each_channel_with_room_and_echoes
      [OF ok1, of sample_marshal False 7 "''update''" "''{user 7, update}''" sample_unmarshal]
  obtain n2 where n2: "Notify sample_marshal True notifier_two_subscribers 7 ''update'' = Some n2"
      and d2: "\<forall>ch \<in> set (subs notifier_two_subscribers 7).
                 buffer n2 ch =
                   (if length (buffer notifier_two_subscribers ch) < chan_cap
                    then buffer notifier_two_subscribers ch
                           @ [\<lparr>update_UserID = 7, update_Type = ''update''\<rparr>]
                    else buffer notifier_two_subscribers ch)"
    using two by blast
  obtain n1 where n1: "Notify sample_marshal True notifier_one_full 7 ''update'' = Some n1"
      and d1: "\<forall>ch \<in> set (subs notifier_one_full 7).
                 buffer n1 ch =
                   (if length (buffer notifier_one_full ch) < chan_cap
                    then buffer notifier_one_full ch
                           @ [\<lparr>update_UserID = 7, update_Type = ''update''\<rparr>]
                    else buffer notifier_one_full ch)"
    using full by blast
  obtain n0 where n0: "Notify sample_marshal False notifier_one_full 7 ''update'' = Some n0"
      and d0: "\<forall>ch \<in> set (subs notifier_one_full 7).
                 buffer n0 ch =
                   (if length (buffer notifier_one_full ch) < chan_cap
                    then buffer notifier_one_full ch
                           @ [\<lparr>update_UserID = 7, update_Type = ''update''\<rparr>]
                    else buffer notifier_one_full ch)"
    using down by blast
  have quiet: "Option.bind (Notify sample_marshal False notifier_one_full 7 ''update'')
                 (relay sample_unmarshal)
               = Notify sample_marshal False notifier_one_full 7 ''update''"
    using down f1(3) by blast
  obtain e1 where e1: "Option.bind (Notify sample_marshal True notifier_one_full 7 ''update'')
          (relay sample_unmarshal) = Some e1"
      and de: "\<forall>ch \<in> set (subs notifier_one_full 7).
              buffer e1 ch
                = buffer notifier_one_full ch
                    @ replicate (min 2 (chan_cap - length (buffer notifier_one_full ch)))
                        \<lparr>update_UserID = 7, update_Type = ''update''\<rparr>"
    using full f1 enc dec by blast
  have r2: "buffer n2 0 = [sample_update]" "buffer n2 (Suc 0) = [sample_update]"
    using d2 by (simp_all add: subs2 b2 chan_cap_def sample_update_def)
  have r1: "buffer n1 0 = replicate 10 sample_update" "buffer n1 (Suc 0) = [sample_update]"
    using d1 by (simp_all add: subs1 b1 chan_cap_def sample_update_def)
  have r0: "buffer n0 (Suc 0) = [sample_update]"
    using d0 by (simp_all add: subs1 b1 chan_cap_def sample_update_def)
  have re: "buffer e1 0 = replicate 10 sample_update"
      "buffer e1 (Suc 0) = [sample_update, sample_update]"
    using de by (simp_all add: subs1 b1 chan_cap_def sample_update_def numeral_2_eq_2)
  show ?thesis
    unfolding quiet e1 unfolding n2 n1 n0 using r2 r1 r0 re by simp
qed

section \<open>Fingerprints and pushes\<close>

lemma foldl_append_concat:
  "foldl (\<lambda>result p. result @ f p) acc ps = acc @ concat (map f ps)"
  by (induction ps arbitrary: acc) simp_all

lemma hashPosts_concat:
  "ps \<noteq> [] \<Longrightarrow> hashPosts idstr ps = concat (map (hash_entry idstr) ps)"
  by (simp add: hashPosts_def foldl_append_concat)

lemma hashPosts_nonempty_differs:
  assumes "ps \<noteq> []"
  shows "hashPosts idstr ps \<noteq> hashPosts idstr []"
proof -
  obtain qs p where ps: "ps = qs @ [p]" using assms by (cases ps rule: rev_cases) auto
  have "last (hashPosts idstr ps) = CHR '';''"
    unfolding ps by (simp add: hashPosts_def foldl_append_concat hash_entry_def)
  moreover have "last (hashPosts idstr []) = CHR ''y''"
    by (simp add: hashPosts_def)
  ultimately show ?thesis by auto
qed

lemma tick_unchanged:
  assumes "hashPosts idstr upcoming = lastUpcomingHash s"
      and "hashPosts idstr history = lastHistoryHash s"
  shows "on_event marshal idstr s (Tick (Inr upcoming) (Inr history)) = s"
  using assms by (simp add: Let_def)

lemma tick_remembers:
  assumes "running (on_event marshal idstr s (Tick (Inr upcoming) (Inr history)))"
  shows "lastUpcomingHash (on_event marshal idstr s (Tick (Inr upcoming) (Inr history)))
           = hashPosts idstr upcoming \<and>
         lastHistoryHash (on_event marshal idstr s (Tick (Inr upcoming) (Inr history)))
           = hashPosts idstr history"
  using assms
  by (auto simp: Let_def Fprintf_def split: option.splits list.splits if_splits)

lemma tick_pushes_at_most_one:
  "pushes (on_event marshal idstr s (Tick upcoming_read history_read)) \<le> Suc (pushes s)"
  by (auto simp: Let_def Fprintf_def pushes_def split: option.splits list.splits sum.splits)

lemma tick_changed:
  assumes "hashPosts idstr upcoming \<noteq> lastUpcomingHash s
             \<or> hashPosts idstr history \<noteq> lastHistoryHash s"
      and "marshal upcoming history = Some jsonData" and "write_faults s = []"
  shows "on_event marshal idstr s (Tick (Inr upcoming) (Inr history))
           = s\<lparr>lastUpcomingHash := hashPosts idstr upcoming,
               lastHistoryHash := hashPosts idstr history,
               written := written s @ [UpdateFrame jsonData]\<rparr>"
  using assms by (auto simp: Let_def Fprintf_def)

text \<open>
  Claim C8. The fingerprint of a non-empty list is the concatenation, post by post, of
  the id, the status and the update time in seconds, written \<open>id:status:seconds;\<close>
  (the empty list has the fixed fingerprint \<open>empty\<close>, which no other list has). On a
  tick whose two lists have the fingerprints remembered from the previous push, nothing
  is written and nothing changes. So when the same two lists are presented on two
  consecutive ticks the second tick writes nothing, the two ticks together push at most
  once, and they push exactly once when the lists differ in fingerprint from the
  previous push (the encoder and the connection working).
\<close>

theorem fingerprint_suppression:
  "(ps \<noteq> [] \<longrightarrow>
      hashPosts idstr ps =
        concat (map (\<lambda>p. idstr (ID p) @ '':'' @ status_string (Status p) @ '':''
                         @ show_int (Unix (UpdatedAt p)) @ '';'') ps)) \<and>
   (ps \<noteq> [] \<longrightarrow> hashPosts idstr ps \<noteq> hashPosts idstr []) \<and>
   (hashPosts idstr upcoming = lastUpcomingHash s \<and>
    hashPosts idstr history = lastHistoryHash s \<longrightarrow>
      on_event marshal idstr s (Tick (Inr upcoming) (Inr history)) = s) \<and>
   written (StreamPosts_loop marshal idstr s
              [Tick (Inr upcoming) (Inr history), Tick (Inr upcoming) (Inr history)])
     = written (StreamPosts_loop marshal idstr s [Tick (Inr upcoming) (Inr history)]) \<and>
   pushes (StreamPosts_loop marshal idstr s
              [Tick (Inr upcoming) (Inr history), Tick (Inr upcoming) (Inr history)])
     \<le> Suc (pushes s) \<and>
   (running s \<and> write_faults s = [] \<and> marshal upcoming history = Some jsonData \<and>
    (hashPosts idstr upcoming \<noteq> lastUpcomingHash s
       \<or> hashPosts idstr history \<noteq> lastHistoryHash s) \<longrightarrow>
      written (StreamPosts_loop marshal idstr s
                 [Tick (Inr upcoming) (Inr history), Tick (Inr upcoming) (Inr history)])
        = written s @ [UpdateFrame jsonData])"
proof -
  let ?t = "Tick (Inr upcoming) (Inr history)"
  let ?s1 = "on_event marshal idstr s ?t"
  have fp: "ps \<noteq> [] \<Longrightarrow> hashPosts idstr ps =
        concat (map (\<lambda>p. idstr (ID p) @ '':'' @ status_string (Status p) @ '':''
                         @ show_int (Unix (UpdatedAt p)) @ '';'') ps)"
    using hashPosts_concat [of ps idstr] by (simp add: hash_entry_def [abs_def])
  have second: "running ?s1 \<Longrightarrow> on_event marshal idstr ?s1 ?t = ?s1"
    using tick_remembers [of marshal idstr s upcoming history]
    by (intro tick_unchanged) simp_all
  have two: "StreamPosts_loop marshal idstr s [?t, ?t] = StreamPosts_loop marshal idstr s [?t]"
    using second by (cases "running s"; cases "running ?s1") simp_all
  have bound: "pushes (StreamPosts_loop marshal idstr s [?t]) \<le> Suc (pushes s)"
    using tick_pushes_at_most_one [of marshal idstr s "Inr upcoming" "Inr history"]
    by (cases "running s") simp_all
  have once: "written (StreamPosts_loop marshal idstr s [?t]) = written s @ [UpdateFrame jsonData]"
    if "running s" "write_faults s = []" "marshal upcoming history = Some jsonData"
       "hashPosts idstr upcoming \<noteq> lastUpcomingHash s
          \<or> hashPosts idstr history \<noteq> lastHistoryHash s"
    using that tick_changed [of idstr upcoming s history marshal jsonData] by simp
  show ?thesis
    using fp hashPosts_nonempty_differs [of ps idstr]
      tick_unchanged [of idstr upcoming s history marshal] bound once
    unfolding two by blast
qed

theorem fingerprint_suppression_witness:
  "hashPosts sample_idstr [scheduled_post] = ''00000000-0000-0000-0000-000000000001:scheduled:0;'' \<and>
   on_event sample_marshal_lists sample_idstr stream_connected (Tick (Inr []) (Inr []))
     = stream_connected \<and>
   written (StreamPosts_loop sample_marshal_lists sample_idstr stream_connected
      [Tick (Inr [scheduled_post]) (Inr []), Tick (Inr [scheduled_post]) (Inr [])])
     = [ConnectedFrame, UpdateFrame ''{upcoming: 0, history: 0}'',
        UpdateFrame ''{upcoming: 1, history: 0}'']"
proof -
  have h: "hashPosts sample_idstr [scheduled_post]
             = ''00000000-0000-0000-0000-000000000001:scheduled:0;''"
    by (simp add: hashPosts_def hash_entry_def scheduled_post_def sample_idstr_def id_text_1_def
        show_int_def Unix_def show_nat.simps)
  have e: "hashPosts sample_idstr [] = ''empty''"
    by (simp add: hashPosts_def)
  have m: "sample_marshal_lists [scheduled_post] [] = Some ''{upcoming: 1, history: 0}''"
    by (simp add: sample_marshal_lists_def show_nat.simps)
  have st: "running stream_connected" "write_faults stream_connected = []"
      "lastUpcomingHash stream_connected = ''empty''"
      "lastHistoryHash stream_connected = ''empty''"
      "written stream_connected = [ConnectedFrame, UpdateFrame ''{upcoming: 0, history: 0}'']"
    by (simp_all add: stream_connected_def)
  note inst = fingerprint_suppression [where idstr = sample_idstr and ps = "[scheduled_post]"
      and marshal = sample_marshal_lists and s = stream_connected]
  have same: "on_event sample_marshal_lists sample_idstr stream_connected (Tick (Inr []) (Inr []))
                = stream_connected"
    using inst [where upcoming = "[]" and history = "[]"] e st(3,4) by simp
  have changed: "hashPosts sample_idstr [scheduled_post] \<noteq> lastUpcomingHash stream_connected"
    by (simp add: h st(3))
  have once: "written (StreamPosts_loop sample_marshal_lists sample_idstr stream_connected
      [Tick (Inr [scheduled_post]) (Inr []), Tick (Inr [scheduled_post]) (Inr [])])
     = written stream_connected @ [UpdateFrame ''{upcoming: 1, history: 0}'']"
    using inst [where upcoming = "[scheduled_post]" and history = "[]"
        and jsonData = "''{upcoming: 1, history: 0}''"] st(1,2) m changed
    by blast
  show ?thesis
    using h same once by (simp add: st(5))
qed

section \<open>The stream handler and the notifier\<close>

lemma StreamPosts_begin_connected:
  "StreamPosts_begin sample_marshal_lists sample_idstr True True [] (Inr []) (Inr [])
     = Inr stream_connected"
  by (simp add: StreamPosts_begin_def Fprintf_def or_empty_def hashPosts_def
      sample_marshal_lists_def show_nat.simps stream_connected_def Let_def)

lemma NotifyCall_leaves_stream:
  "proc_stream (process_step marshal_update marshal idstr p (NotifyCall userID updateType))
     = proc_stream p"
  by (simp add: process_step_def split: option.splits)

text \<open>
  Claim C5 (the code departs from it). The handler in the source is built from the
  database alone: it never subscribes to the notifier, and its loop waits on the request
  context and on its two tickers only. A client of user 7 has connected and received the
  initial snapshot. A post of that user is then created and \<open>Notify\<close> is called for the
  user: the notifier has no subscriber for the user, the handler writes nothing, and the
  new snapshot goes out only when the periodic ticker fires. When the client disconnects
  the handler returns and the notifier is as it was: there is no subscription to release.
\<close>

theorem stream_handler_ignores_notifier_events:
  "pushes (proc_stream process_connected) = 1 \<and>
   SubscriberCount (proc_notifier process_connected) 7 = 0 \<and>
   proc_stream (process_step sample_marshal sample_marshal_lists sample_idstr process_connected
                  (NotifyCall 7 ''create''))
     = proc_stream process_connected \<and>
   pushes (proc_stream (process_step sample_marshal sample_marshal_lists sample_idstr
             (process_step sample_marshal sample_marshal_lists sample_idstr process_connected
                (NotifyCall 7 ''create''))
             (HandlerEvent (Tick (Inr [scheduled_post]) (Inr [])))))
     = 2 \<and>
   running (proc_stream (process_step sample_marshal sample_marshal_lists sample_idstr
              process_connected (HandlerEvent Done))) = False \<and>
   proc_notifier (process_step sample_marshal sample_marshal_lists sample_idstr
                    process_connected (HandlerEvent Done))
     = proc_notifier process_connected"
proof -
  have h: "hashPosts sample_idstr [scheduled_post]
             = ''00000000-0000-0000-0000-000000000001:scheduled:0;''"
    by (simp add: hashPosts_def hash_entry_def scheduled_post_def sample_idstr_def id_text_1_def
        show_int_def Unix_def show_nat.simps)
  have e: "hashPosts sample_idstr [] = ''empty''"
    by (simp add: hashPosts_def)
  have m: "sample_marshal_lists [scheduled_post] [] = Some ''{upcoming: 1, history: 0}''"
    by (simp add: sample_marshal_lists_def show_nat.simps)
  have a: "pushes (proc_stream process_connected) = 1"
    by (simp add: process_connected_def stream_connected_def pushes_def)
  have b: "SubscriberCount (proc_notifier process_connected) 7 = 0"
    by (simp add: process_connected_def NewNotifier_def SubscriberCount_def subs_def)
  have c: "proc_stream (process_step sample_marshal sample_marshal_lists sample_idstr
             process_connected (NotifyCall 7 ''create'')) = stream_connected"
    by (simp add: NotifyCall_leaves_stream process_connected_def)
  have d: "pushes (StreamPosts_loop sample_marshal_lists sample_idstr stream_connected
             [Tick (Inr [scheduled_post]) (Inr [])]) = 2"
    by (simp add: h e m stream_connected_def Fprintf_def pushes_def Let_def)
  have f: "running (proc_stream (process_step sample_marshal sample_marshal_lists sample_idstr
              process_connected (HandlerEvent Done))) = False"
      "proc_notifier (process_step sample_marshal sample_marshal_lists sample_idstr
                    process_connected (HandlerEvent Done)) = proc_notifier process_connected"
    by (simp_all add: process_step_def process_connected_def stream_connected_def)
  show ?thesis
    using a b c d f by (simp add: process_step_def process_connected_def)
qed

end
